theory Spec2Isabelle
  imports Main "HOL-Library.Word" "HOL-Library.Sublist"
begin

section \<open>Machine types\<close>

text \<open>
  The program is C on an LP64 host: \<open>unsigned long\<close> is 64 bits, \<open>unsigned int\<close> is
  32 bits, \<open>int\<close> and \<open>pid_t\<close> are 32 bits and \<open>long\<close> is 64 bits, read as two's complement by \<open>sint\<close>.
  \<open>time_t\<close> values are only stored, never computed with, and are kept as integers.
\<close>

type_synonym ulong = "64 word"
type_synonym uint = "32 word"
type_synonym cint = "32 word"
type_synonym clong = "64 word"
type_synonym pid_t = "32 word"
type_synonym time_t = int

text \<open>
  A read or write outside an array, or through a pointer that is not a mapping, is
  undefined behaviour in C; the model reports it as a value.
\<close>

datatype fault = OutOfBounds | InvalidPointer

section \<open>Profile store (main.c)\<close>

text \<open>
  \<open>struct file_memory_profile\<close>: the fields main.c uses. \<open>filename\<close> is a
  \<open>char *\<close> that may be NULL.
\<close>

record file_memory_profile =
  filename :: "string option"
  peak_memory_mb :: ulong
  last_used :: time_t

text \<open>
  The globals \<open>memory_profiles\<close> (NULL until first grown), \<open>memory_profile_count\<close>,
  \<open>memory_profiles_capacity\<close> and \<open>memory_profiles_dirty\<close>.
\<close>

record profile_store =
  memory_profiles :: "file_memory_profile list option"
  memory_profile_count :: uint
  memory_profiles_capacity :: uint
  memory_profiles_dirty :: cint

text \<open>
  \<open>record_file_memory_usage_by_index (profile_idx, memory_mb, final)\<close>, main.c 940-976.
  \<open>now\<close> is the value \<open>time (NULL)\<close> returns.
\<close>

definition record_file_memory_usage_by_index ::
  "profile_store \<Rightarrow> cint \<Rightarrow> ulong \<Rightarrow> cint \<Rightarrow> time_t \<Rightarrow> fault + profile_store" where
  "record_file_memory_usage_by_index st profile_idx memory_mb final now =
    (if sint profile_idx < 0 \<or> memory_profile_count st \<le> (ucast profile_idx :: uint) then Inr st
     else case memory_profiles st of
       None \<Rightarrow> Inr st
     | Some ps \<Rightarrow>
         (let i = nat (sint profile_idx) in
          if length ps \<le> i then Inl OutOfBounds
          else
            (let prev_peak_mb = peak_memory_mb (ps ! i) in
             if memory_mb \<le> prev_peak_mb \<and> final = 0 then Inr st
             else
               (let memory_mb' =
                  (if final \<noteq> 0 \<and> memory_mb < prev_peak_mb
                   then prev_peak_mb - (prev_peak_mb - memory_mb) div 3
                   else memory_mb)
                in Inr (st\<lparr>memory_profiles :=
                            Some (ps[i := (ps ! i)\<lparr>peak_memory_mb := memory_mb',
                                                   last_used := now\<rparr>]),
                          memory_profiles_dirty := 1\<rparr>)))))"

text \<open>The stored peak of entry \<open>i\<close>, when the array is allocated and holds it.\<close>

definition stored_peak :: "profile_store \<Rightarrow> nat \<Rightarrow> ulong option" where
  "stored_peak st i =
    (case memory_profiles st of
       None \<Rightarrow> None
     | Some ps \<Rightarrow> if i < length ps then Some (peak_memory_mb (ps ! i)) else None)"

definition stored_last_used :: "profile_store \<Rightarrow> nat \<Rightarrow> time_t option" where
  "stored_last_used st i =
    (case memory_profiles st of
       None \<Rightarrow> None
     | Some ps \<Rightarrow> if i < length ps then Some (last_used (ps ! i)) else None)"

text \<open>
  A valid profile index: non-negative, below \<open>memory_profile_count\<close>, into an allocated
  array that holds at least \<open>memory_profile_count\<close> entries.
\<close>

definition valid_index :: "profile_store \<Rightarrow> cint \<Rightarrow> bool" where
  "valid_index st profile_idx \<longleftrightarrow>
     0 \<le> sint profile_idx \<and> (ucast profile_idx :: uint) < memory_profile_count st \<and>
     (case memory_profiles st of
        None \<Rightarrow> False
      | Some ps \<Rightarrow> unat (memory_profile_count st) \<le> length ps)"

text \<open>
  A store as the top-level process holds it after loading one profile: the array has its
  first capacity of 1000 entries, the unused ones zeroed.
\<close>

definition zero_profile :: file_memory_profile where
  "zero_profile = \<lparr>filename = None, peak_memory_mb = 0, last_used = 0\<rparr>"

definition example_store :: profile_store where
  "example_store =
    \<lparr>memory_profiles =
       Some (\<lparr>filename = Some ''src/d.cpp'', peak_memory_mb = 900, last_used = 1700000000\<rparr>
             # replicate 999 zero_profile),
     memory_profile_count = 1,
     memory_profiles_capacity = 1000,
     memory_profiles_dirty = 0\<rparr>"

definition unallocated_store :: profile_store where
  "unallocated_store =
    \<lparr>memory_profiles = None, memory_profile_count = 0,
     memory_profiles_capacity = 0, memory_profiles_dirty = 0\<rparr>"

section \<open>Shared accounting region (main.c)\<close>

definition MAX_RESERVATIONS :: nat where
  "MAX_RESERVATIONS = 64"

record pid_reservation =
  pid :: pid_t
  reserved_mb :: ulong

text \<open>
  \<open>struct shared_memory_data\<close> without its two mutexes: the model runs one call at a
  time. \<open>reservations\<close> is the array of \<open>MAX_RESERVATIONS\<close> slots.
\<close>

record shared_memory_data =
  reservation_count :: uint
  reservations :: "pid_reservation list"
  unused_peaks_mb :: ulong
  total_reserved_mb :: ulong

text \<open>
  The pointer \<open>shared_data\<close>: NULL, \<open>MAP_FAILED\<close> (what a failed \<open>mmap\<close> leaves in
  it), or a mapping, which the model holds by its content.
\<close>

datatype shm_ptr = Null | Map_failed | Mapped shared_memory_data

record shm_globals =
  memory_aware_flag :: cint
  makelevel :: uint
  shared_data :: shm_ptr

text \<open>
  What the operating system answers when \<open>init_shared_memory\<close> runs: \<open>shm_open\<close> or
  \<open>ftruncate\<close> fails, \<open>mmap\<close> fails, or the object is mapped with the given content.
\<close>

datatype shm_os = Open_failed | Mmap_failed | Map_ok shared_memory_data

definition zeroed_region :: shared_memory_data where
  "zeroed_region =
    \<lparr>reservation_count = 0,
     reservations = replicate MAX_RESERVATIONS \<lparr>pid = 0, reserved_mb = 0\<rparr>,
     unused_peaks_mb = 0,
     total_reserved_mb = 0\<rparr>"

text \<open>\<open>init_shared_memory ()\<close>, main.c 982-1047: the new globals and the return value.\<close>

definition init_shared_memory :: "shm_globals \<Rightarrow> shm_os \<Rightarrow> shm_globals \<times> cint" where
  "init_shared_memory g os =
    (case os of
       Open_failed \<Rightarrow> (g, - 1)
     | Mmap_failed \<Rightarrow> (g\<lparr>shared_data := Map_failed\<rparr>, - 1)
     | Map_ok d \<Rightarrow>
         (g\<lparr>shared_data := Mapped (if makelevel g = 0 then zeroed_region else d)\<rparr>, 0))"

text \<open>
  The guard both entry points start with:
  \<open>if (memory_aware_flag && shared_data == NULL) if (init_shared_memory () != 0) return 0;\<close>
  The boolean tells whether the caller returns at once.
\<close>

definition ensure_shared_memory :: "shm_globals \<Rightarrow> shm_os \<Rightarrow> shm_globals \<times> bool" where
  "ensure_shared_memory g os =
    (if memory_aware_flag g \<noteq> 0 \<and> shared_data g = Null
     then (case init_shared_memory g os of (g', rc) \<Rightarrow> (g', rc \<noteq> 0))
     else (g, False))"

text \<open>\<open>get_imminent_memory_mb ()\<close>, main.c 1151-1179.\<close>

definition get_imminent_memory_mb :: "shm_globals \<Rightarrow> shm_os \<Rightarrow> fault + (shm_globals \<times> ulong)" where
  "get_imminent_memory_mb g os =
    (case ensure_shared_memory g os of
       (g', True) \<Rightarrow> Inr (g', 0)
     | (g', False) \<Rightarrow>
         (case shared_data g' of
            Null \<Rightarrow> Inr (g', 0)
          | Map_failed \<Rightarrow> Inl InvalidPointer
          | Mapped d \<Rightarrow> Inr (g', total_reserved_mb d + unused_peaks_mb d)))"

text \<open>
  \<open>for (i = from; i < n; i++) if (reservations[i].pid == p) { ...; break; }\<close>: the index
  the loop stops at, if any.
\<close>

function find_pid :: "pid_reservation list \<Rightarrow> pid_t \<Rightarrow> nat \<Rightarrow> nat \<Rightarrow> nat option" where
  "find_pid rs p i n =
    (if i < n then (if pid (rs ! i) = p then Some i else find_pid rs p (Suc i) n) else None)"
  by pat_completeness auto
termination
  by (relation "measure (\<lambda>(rs, p, i, n). n - i)") auto

declare find_pid.simps [simp del]

text \<open>
  The bound of the first loop, \<open>i < count && i < MAX_RESERVATIONS\<close>, where \<open>count\<close> is
  the \<open>int\<close> read from the unsigned \<open>reservation_count\<close>.
\<close>

definition existing_limit :: "uint \<Rightarrow> nat" where
  "existing_limit c = (if sint c < 0 then 0 else min (nat (sint c)) MAX_RESERVATIONS)"

text \<open>
  main.c 1285-1324, once \<open>res\<close> points at slot \<open>i\<close>: the release branch (\<open>mb <= 0\<close>) and
  the overwrite branch, with the value returned.
\<close>

definition apply_reservation ::
  "shared_memory_data \<Rightarrow> nat \<Rightarrow> pid_t \<Rightarrow> clong \<Rightarrow> shared_memory_data \<times> cint" where
  "apply_reservation d i p mb =
    (let res = reservations d ! i;
         old_value = reserved_mb res
     in if sint mb \<le> 0 then
          (let total' = total_reserved_mb d - old_value;
               res1 = res\<lparr>reserved_mb := 0\<rparr>;
               res2 = (if pid res1 = p then res1\<lparr>pid := 0\<rparr> else res1)
           in (d\<lparr>total_reserved_mb := total',
                 reservations := (reservations d)[i := res2]\<rparr>,
               if mb = 0 \<or> (sint mb < 0 \<and> old_value = - mb) then 1 else 0))
        else
          (let total = total_reserved_mb d;
               total' =
                 (if old_value \<le> mb then total + (mb - old_value)
                  else if total < old_value - mb then 0
                  else total - (old_value - mb))
           in (d\<lparr>reservations := (reservations d)[i := res\<lparr>reserved_mb := mb\<rparr>],
                 total_reserved_mb := total'\<rparr>,
               0)))"

text \<open>
  The body of \<open>reserve_memory_mb\<close> on a mapped region, main.c 1243-1324: find the slot of
  \<open>pid\<close> below \<open>reservation_count\<close>; failing that, return if \<open>mb == 0\<close>, else take the
  first slot whose pid is 0, extending \<open>reservation_count\<close> when the slot lies at or
  beyond it; with no free slot, return 0.
\<close>

definition reserve_in_region ::
  "shared_memory_data \<Rightarrow> pid_t \<Rightarrow> clong \<Rightarrow> shared_memory_data \<times> cint" where
  "reserve_in_region d p mb =
    (case find_pid (reservations d) p 0 (existing_limit (reservation_count d)) of
       Some i \<Rightarrow> apply_reservation d i p mb
     | None \<Rightarrow>
         if mb = 0 then (d, 0)
         else
           (case find_pid (reservations d) 0 0 MAX_RESERVATIONS of
              Some empty_slot \<Rightarrow>
                apply_reservation
                  (d\<lparr>reservations :=
                       (reservations d)[empty_slot := \<lparr>pid = p, reserved_mb = 0\<rparr>],
                     reservation_count :=
                       (if sint (reservation_count d) \<le> int empty_slot
                        then of_nat (empty_slot + 1)
                        else reservation_count d)\<rparr>)
                  empty_slot p mb
            | None \<Rightarrow> (d, 0)))"

text \<open>\<open>reserve_memory_mb (pid, mb, filepath)\<close>, main.c 1222-1328.\<close>

definition reserve_memory_mb ::
  "shm_globals \<Rightarrow> shm_os \<Rightarrow> pid_t \<Rightarrow> clong \<Rightarrow> fault + (shm_globals \<times> cint)" where
  "reserve_memory_mb g os p mb =
    (case ensure_shared_memory g os of
       (g', True) \<Rightarrow> Inr (g', 0)
     | (g', False) \<Rightarrow>
         (case shared_data g' of
            Null \<Rightarrow> Inr (g', 0)
          | Map_failed \<Rightarrow> Inl InvalidPointer
          | Mapped d \<Rightarrow>
              (case reserve_in_region d p mb of
                 (d', rc) \<Rightarrow> Inr (g'\<lparr>shared_data := Mapped d'\<rparr>, rc))))"

text \<open>
  Well-formed tables. The array has its 64 slots; \<open>reservation_count\<close> is at most 64 and
  every slot at or beyond it is free; no process id other than 0 owns two slots. The
  zeroed region is well-formed and \<open>reserve_memory_mb\<close> keeps a table well-formed, so
  every table the calls produce from the zeroed region is.
\<close>

definition table_inv :: "shared_memory_data \<Rightarrow> bool" where
  "table_inv d \<longleftrightarrow>
     length (reservations d) = MAX_RESERVATIONS \<and>
     unat (reservation_count d) \<le> MAX_RESERVATIONS \<and>
     (\<forall>i. unat (reservation_count d) \<le> i \<and> i < MAX_RESERVATIONS \<longrightarrow>
          pid (reservations d ! i) = 0) \<and>
     (\<forall>i j. i < MAX_RESERVATIONS \<and> j < MAX_RESERVATIONS \<and>
            pid (reservations d ! i) = pid (reservations d ! j) \<and>
            pid (reservations d ! i) \<noteq> 0 \<longrightarrow> i = j)"

text \<open>The amount reserved under a process id: that of its slot, 0 without one.\<close>

definition reserved_for :: "shared_memory_data \<Rightarrow> pid_t \<Rightarrow> ulong" where
  "reserved_for d p =
    (case find_pid (reservations d) p 0 (existing_limit (reservation_count d)) of
       None \<Rightarrow> 0
     | Some i \<Rightarrow> reserved_mb (reservations d ! i))"

section \<open>Command-line classifier (memory.c)\<close>

text \<open>
  A C string is modelled by the list of its characters before the terminating NUL.
  \<open>strncmp (ptr, lit, n) == 0\<close> for a literal of \<open>n\<close> characters holds exactly when
  the \<open>n\<close> characters at \<open>ptr\<close> are the literal (a NUL earlier makes them differ).
\<close>

definition strncmp_eq :: "string \<Rightarrow> nat \<Rightarrow> string \<Rightarrow> bool" where
  "strncmp_eq text i lit \<longleftrightarrow> take (length lit) (drop i text) = lit"

text \<open>
  The extension test at \<open>ptr = text + i\<close>: the index \<open>candidate_end\<close> points at, if any.
  \<open>ptr[2]\<close> is the NUL exactly when \<open>i + 2\<close> is the length of the text.
\<close>

definition candidate_end :: "string \<Rightarrow> nat \<Rightarrow> nat option" where
  "candidate_end text i =
    (if strncmp_eq text i ''.cpp'' then Some (i + 3)
     else if strncmp_eq text i ''.cc'' then Some (i + 2)
     else if strncmp_eq text i ''.c'' \<and>
             (length text \<le> i + 2 \<or> text ! (i + 2) = CHR '' '')
       then Some (i + 1)
     else None)"

text \<open>
  \<open>while (start > text && !stop (start[-1])) start--;\<close> from index \<open>s\<close>.
\<close>

fun backtrack :: "(char \<Rightarrow> bool) \<Rightarrow> string \<Rightarrow> nat \<Rightarrow> nat" where
  "backtrack stop text 0 = 0"
| "backtrack stop text (Suc s) = (if stop (text ! s) then Suc s else backtrack stop text s)"

definition is_space :: "char \<Rightarrow> bool" where
  "is_space c \<longleftrightarrow> c = CHR '' ''"

definition is_space_or_quote :: "char \<Rightarrow> bool" where
  "is_space_or_quote c \<longleftrightarrow> c = CHR '' '' \<or> c = CHR 0x22"

text \<open>The characters \<open>text[a] .. text[b]\<close>, both ends included.\<close>

definition substr :: "string \<Rightarrow> nat \<Rightarrow> nat \<Rightarrow> string" where
  "substr text a b = take (Suc b - a) (drop a text)"

text \<open>
  The slash test: \<open>start\<close> runs from \<open>candidate_start\<close> to \<open>candidate_end\<close> looking
  for \<open>'/'\<close>.
\<close>

definition has_slash :: "string \<Rightarrow> nat \<Rightarrow> nat \<Rightarrow> bool" where
  "has_slash text a b \<longleftrightarrow> CHR ''/'' \<in> set (substr text a b)"

text \<open>
  One iteration of the scanning loop at \<open>ptr = text + i\<close>: the new value of \<open>end\<close>.
\<close>

definition scan_step :: "string \<Rightarrow> nat \<Rightarrow> nat option \<Rightarrow> nat option" where
  "scan_step text i end_ptr =
    (case candidate_end text i of
       None \<Rightarrow> end_ptr
     | Some ce \<Rightarrow>
         if has_slash text (backtrack is_space text i) ce then Some ce else end_ptr)"

text \<open>
  \<open>while (*ptr && (size_t)(ptr - text) < text_len) { ...; ptr++; }\<close>
\<close>

function scan :: "string \<Rightarrow> nat \<Rightarrow> nat \<Rightarrow> nat option \<Rightarrow> nat option" where
  "scan text text_len i end_ptr =
    (if i < length text \<and> i < text_len
     then scan text text_len (Suc i) (scan_step text i end_ptr)
     else end_ptr)"
  by pat_completeness auto
termination
  by (relation "measure (\<lambda>(text, text_len, i, end_ptr). length text - i)") auto

declare scan.simps [simp del]

text \<open>\<open>while (strncmp (strip_ptr, "../", 3) == 0) strip_ptr += 3;\<close>\<close>

function strip_dotdot :: "string \<Rightarrow> string" where
  "strip_dotdot s = (if strncmp_eq s 0 ''../'' then strip_dotdot (drop 3 s) else s)"
  by pat_completeness auto
termination
proof (relation "measure length")
  show "wf (measure length)" by simp
next
  fix s :: string
  assume "strncmp_eq s 0 ''../''"
  then have "s \<noteq> []" by (auto simp: strncmp_eq_def)
  then show "(drop 3 s, s) \<in> measure length" by (cases s) auto
qed

declare strip_dotdot.simps [simp del]

text \<open>
  \<open>extract_filename_common (text, text_len, ...)\<close>, memory.c 254-360: the result is the
  \<open>xstrdup\<close>'d name or NULL. The debug file written at the end does not touch the
  result.
\<close>

definition extract_filename_common :: "string \<Rightarrow> nat \<Rightarrow> string option" where
  "extract_filename_common text text_len =
    (case scan text text_len 0 None of
       None \<Rightarrow> None
     | Some e \<Rightarrow>
         (let start = backtrack is_space_or_quote text e;
              len = e - start + 1
          in if len < 1000 \<and> 0 < len
             then Some (strip_dotdot (substr text start e))
             else None))"

text \<open>
  \<open>extract_filename_from_argv (argv, caller)\<close>: the arguments joined by single spaces in
  a buffer of 4096 bytes.
\<close>

fun argv_join :: "string list \<Rightarrow> string" where
  "argv_join [] = []"
| "argv_join [a] = a"
| "argv_join (a # b # bs) = a @ CHR '' '' # argv_join (b # bs)"

definition extract_filename_from_argv :: "string list \<Rightarrow> string option" where
  "extract_filename_from_argv argv =
    (let total_len = sum_list (map (\<lambda>a. length a + 1) argv)
     in if length argv = 0 \<or> 4096 \<le> total_len then None
        else (let argv_buf = argv_join argv
              in extract_filename_common argv_buf (length argv_buf)))"

text \<open>
  \<open>extract_filename_from_cmdline (pid, ...)\<close>: \<open>raw\<close> is the content of
  \<open>/proc/<pid>/cmdline\<close> (arguments terminated by NUL), or \<open>None\<close> when the file
  cannot be opened. At most 4095 bytes are read; every NUL but the last byte becomes a
  space and the last byte read is overwritten by the terminator.
\<close>

definition nul_to_space :: "char \<Rightarrow> char" where
  "nul_to_space c = (if c = CHR 0x00 then CHR '' '' else c)"

definition extract_filename_from_cmdline :: "string option \<Rightarrow> string option" where
  "extract_filename_from_cmdline raw =
    (case raw of
       None \<Rightarrow> None
     | Some bytes \<Rightarrow>
         (let cmdline_buf = take 4095 bytes;
              cmdline_len = length cmdline_buf
          in if cmdline_len = 0 then None
             else extract_filename_common (map nul_to_space (butlast cmdline_buf))
                    cmdline_len))"

text \<open>
  The classifier described by occurrences rather than by its loop. Position \<open>i\<close>
  qualifies when an extension is recognised there and the text from the preceding space
  up to the end of the extension contains a slash. The classifier's answer is taken from
  the last qualifying position.
\<close>

definition qualifies :: "string \<Rightarrow> nat \<Rightarrow> bool" where
  "qualifies text i \<longleftrightarrow>
    (case candidate_end text i of
       None \<Rightarrow> False
     | Some ce \<Rightarrow> has_slash text (backtrack is_space text i) ce)"

definition classify_last_occurrence :: "string \<Rightarrow> nat \<Rightarrow> string option" where
  "classify_last_occurrence text text_len =
    (case rev (filter (qualifies text) [0..<min (length text) text_len]) of
       [] \<Rightarrow> None
     | i # _ \<Rightarrow>
         (case candidate_end text i of
            None \<Rightarrow> None
          | Some e \<Rightarrow>
              (let start = backtrack is_space_or_quote text e
               in if e - start + 1 < 1000
                  then Some (strip_dotdot (substr text start e))
                  else None)))"

text \<open>The recognised source-file suffixes, and the shape of every classified path.\<close>

definition source_suffixes :: "string list" where
  "source_suffixes = [''.cpp'', ''.cc'', ''.c'']"

definition path_like :: "string \<Rightarrow> bool" where
  "path_like r \<longleftrightarrow>
     (\<exists>ext \<in> set source_suffixes. suffix ext r) \<and>
     (\<forall>c \<in> set r. \<not> is_space_or_quote c) \<and>
     \<not> strncmp_eq r 0 ''../'' \<and> length r < 1000"

text \<open>
  The classifier as the specification words it: split the text into tokens at spaces, keep
  the last token that ends in a recognised suffix and contains a slash, and strip the
  leading \<open>../\<close> segments from it.
\<close>

fun split_spaces :: "string \<Rightarrow> string list" where
  "split_spaces [] = [[]]"
| "split_spaces (c # cs) =
     (if c = CHR '' '' then [] # split_spaces cs
      else (case split_spaces cs of
              [] \<Rightarrow> [[c]]
            | w # ws \<Rightarrow> (c # w) # ws))"

definition tokens :: "string \<Rightarrow> string list" where
  "tokens s = filter (\<lambda>w. w \<noteq> []) (split_spaces s)"

definition is_source_token :: "string \<Rightarrow> bool" where
  "is_source_token w \<longleftrightarrow>
     (suffix ''.cpp'' w \<or> suffix ''.cc'' w \<or> suffix ''.c'' w) \<and> CHR ''/'' \<in> set w"

definition classify_by_tokens :: "string \<Rightarrow> string option" where
  "classify_by_tokens s =
    (case rev (filter is_source_token (tokens s)) of
       [] \<Rightarrow> None
     | w # _ \<Rightarrow> Some (strip_dotdot w))"

text \<open>
  Arguments on which the two readings agree. A plain argument has no space and no double
  quote in it, is shorter than 1000 characters, and, unless it is itself a source token,
  either has no slash or has no \<open>.cpp\<close> or \<open>.cc\<close> inside it. For a vector of plain
  arguments the specification's answer is the last argument that is a source token,
  with its leading \<open>../\<close> segments stripped.
\<close>

definition occurs :: "string \<Rightarrow> string \<Rightarrow> bool" where
  "occurs lit w \<longleftrightarrow> list_ex (\<lambda>i. strncmp_eq w i lit) [0..<length w]"

definition plain_argument :: "string \<Rightarrow> bool" where
  "plain_argument w \<longleftrightarrow>
     (\<forall>c \<in> set w. \<not> is_space_or_quote c) \<and> length w < 1000 \<and>
     (is_source_token w \<or> CHR ''/'' \<notin> set w \<or>
      (\<not> occurs ''.cpp'' w \<and> \<not> occurs ''.cc'' w))"

definition last_source_argument :: "string list \<Rightarrow> string option" where
  "last_source_argument argv =
    (case rev (filter is_source_token argv) of
       [] \<Rightarrow> None
     | w # _ \<Rightarrow> Some (strip_dotdot w))"

text \<open>The extraction at the end \<open>e\<close> of the chosen extension (memory.c 320-339).\<close>

definition extract_at :: "string \<Rightarrow> nat \<Rightarrow> string option" where
  "extract_at t e =
    (let start = backtrack is_space_or_quote t e
     in if e - start + 1 < 1000 then Some (strip_dotdot (substr t start e)) else None)"

section \<open>Descendant walker (main.c)\<close>

definition MAX_TRACKED_DESCENDANTS :: nat where
  "MAX_TRACKED_DESCENDANTS = 100"

text \<open>
  One entry of \<open>main_monitoring_data.descendants\<close>; \<open>dpid\<close> is its field \<open>pid\<close>.
\<close>

record descendant =
  dpid :: pid_t
  peak_mb :: ulong
  old_peak_mb :: ulong
  current_mb :: ulong
  profile_idx :: cint

record main_monitoring_data =
  compile_count :: uint
  descendants :: "descendant list"

text \<open>
  What the walker reads from \<open>/proc\<close>, as a forest: a process with its pid, the
  \<open>VmRSS\<close> of its status file in kB (0 when the line is missing), the bytes of its
  \<open>cmdline\<close> file (\<open>None\<close> when it cannot be opened), and the processes whose
  \<open>PPid\<close> it is, in directory order. Entries that are not numeric, whose status file
  cannot be read or whose \<open>PPid\<close> is another process do not reach the loop body.
\<close>

datatype proc = Proc pid_t ulong "string option" "proc list"

text \<open>The state a walk works on: the descendant table, the profile store, the region.\<close>

record monitor_state =
  monitoring :: main_monitoring_data
  profiles :: profile_store
  shm :: shm_globals

text \<open>
  The variables of one activation of \<open>find_child_descendants\<close>: its parameter
  \<open>parent_idx\<close> (assigned inside the loop), \<open>total_rss_kb\<close>, and the targets of its
  pointers \<open>total_jobs\<close> and \<open>unused_peaks_mb\<close>.
\<close>

record walk_state =
  parent_idx :: cint
  total_rss_kb :: ulong
  total_jobs :: uint
  total_unused_peaks_mb :: ulong
  mon :: monitor_state

text \<open>
  main.c 1579-1595, the search of the table for the process and for its parent. The
  triple is \<open>descendant_idx\<close> (\<open>None\<close> for -1), \<open>profile_idx\<close> and \<open>found_ppidx\<close>.
\<close>

function lookup_descendant ::
  "descendant list \<Rightarrow> nat \<Rightarrow> pid_t \<Rightarrow> pid_t \<Rightarrow> nat \<Rightarrow> nat option \<times> cint \<times> cint
     \<Rightarrow> fault + (nat option \<times> cint \<times> cint)" where
  "lookup_descendant ds n parent_pid p i acc =
    (if i < n then
       (if length ds \<le> i then Inl OutOfBounds
        else
          (let found_ppidx =
                 (if dpid (ds ! i) = parent_pid then profile_idx (ds ! i) else snd (snd acc));
               descendant_idx = (if dpid (ds ! i) = p then Some i else fst acc);
               pidx = (if dpid (ds ! i) = p then profile_idx (ds ! i) else fst (snd acc))
           in if descendant_idx \<noteq> None \<and> 0 \<le> sint found_ppidx
              then Inr (descendant_idx, pidx, found_ppidx)
              else lookup_descendant ds n parent_pid p (Suc i)
                     (descendant_idx, pidx, found_ppidx)))
     else Inr acc)"
  by pat_completeness auto
termination
  by (relation "measure (\<lambda>(ds, n, parent_pid, p, i, acc). n - i)") auto

declare lookup_descendant.simps [simp del]

text \<open>
  main.c 1613-1620, the search of the profiles for the file name:
  \<open>memory_profiles[i].filename && strcmp (...) == 0\<close>.
\<close>

function find_profile ::
  "file_memory_profile list \<Rightarrow> nat \<Rightarrow> string \<Rightarrow> nat \<Rightarrow> fault + nat option" where
  "find_profile ps n name i =
    (if i < n then
       (if length ps \<le> i then Inl OutOfBounds
        else if filename (ps ! i) = Some name then Inr (Some i)
        else find_profile ps n name (Suc i))
     else Inr None)"
  by pat_completeness auto
termination
  by (relation "measure (\<lambda>(ps, n, name, i). n - i)") auto

declare find_profile.simps [simp del]

text \<open>
  \<open>grow_memory_profiles ()\<close>, main.c 899-937. \<open>xmalloc\<close> and \<open>xrealloc\<close> do not return
  NULL, so the failure branch never runs. When doubling the capacity wraps, the \<open>memset\<close>
  runs past the block.
\<close>

definition grow_memory_profiles :: "profile_store \<Rightarrow> fault + profile_store" where
  "grow_memory_profiles st =
    (let cap = memory_profiles_capacity st;
         new_capacity = (if cap = 0 then 1000 else cap * 2);
         old = (case memory_profiles st of None \<Rightarrow> [] | Some ps \<Rightarrow> ps)
     in if new_capacity < cap then Inl OutOfBounds
        else Inr (st\<lparr>memory_profiles :=
                        Some (take (unat cap) old
                              @ replicate (unat new_capacity - unat cap) zero_profile),
                      memory_profiles_capacity := new_capacity\<rparr>))"

text \<open>
  main.c 1626-1650, taken when \<open>profile_idx < 0\<close> after the search: grow the array if it
  is full and add the profile with the current RSS as its peak. The result is the store,
  \<open>profile_peak_mb\<close> as it was, and \<open>profile_idx\<close>, which is the new index or, without
  room, as it was.
\<close>

definition add_profile ::
  "profile_store \<Rightarrow> string \<Rightarrow> ulong \<Rightarrow> time_t \<Rightarrow> ulong \<Rightarrow> cint
     \<Rightarrow> fault + (profile_store \<times> ulong \<times> cint)" where
  "add_profile st name rss_kb now profile_peak_mb pidx =
    (case (if memory_profiles_capacity st \<le> memory_profile_count st
           then grow_memory_profiles st else Inr st) of
       Inl f \<Rightarrow> Inl f
     | Inr st1 \<Rightarrow>
         if memory_profile_count st1 < memory_profiles_capacity st1 then
           (case memory_profiles st1 of
              None \<Rightarrow> Inl InvalidPointer
            | Some ps \<Rightarrow>
                (let k = unat (memory_profile_count st1)
                 in if length ps \<le> k then Inl OutOfBounds
                    else Inr (st1\<lparr>memory_profiles :=
                                    Some (ps[k := (ps ! k)\<lparr>filename := Some name,
                                                          peak_memory_mb := rss_kb div 1024,
                                                          last_used := now\<rparr>]),
                                  memory_profile_count := memory_profile_count st1 + 1\<rparr>,
                              profile_peak_mb, memory_profile_count st1)))
         else Inr (st1, profile_peak_mb, pidx))"

text \<open>
  main.c 1610-1651, for a classified process: the profile found by name gives
  \<open>profile_peak_mb\<close> and \<open>profile_idx\<close> (the unsigned index read as an \<open>int\<close>); with
  \<open>profile_idx\<close> still negative a profile is added.
\<close>

definition attribute_profile ::
  "profile_store \<Rightarrow> string \<Rightarrow> ulong \<Rightarrow> time_t \<Rightarrow> fault + (profile_store \<times> ulong \<times> cint)" where
  "attribute_profile st name rss_kb now =
    (case memory_profiles st of
       None \<Rightarrow> add_profile st name rss_kb now 0 (- 1)
     | Some ps \<Rightarrow>
         (case find_profile ps (unat (memory_profile_count st)) name 0 of
            Inl f \<Rightarrow> Inl f
          | Inr None \<Rightarrow> add_profile st name rss_kb now 0 (- 1)
          | Inr (Some i) \<Rightarrow>
              if sint (of_nat i :: cint) < 0
              then add_profile st name rss_kb now (peak_memory_mb (ps ! i)) (of_nat i)
              else Inr (st, peak_memory_mb (ps ! i), of_nat i)))"

text \<open>
  main.c 1607-1683, for a process that is not in the table and whose parent is not
  attributed (\<open>descendant_idx < 0 && parent_idx < 0\<close>) while the table has room:
  classify it, attribute it to a profile, append its entry (\<open>peak_mb\<close> keeps whatever
  the slot held), and release the reservation of \<open>profile_peak_mb\<close> under its pid. The
  result carries \<open>descendant_idx\<close>, \<open>profile_idx\<close> and \<open>new_descendant\<close>.
\<close>

definition new_descendant_entry ::
  "time_t \<Rightarrow> shm_os \<Rightarrow> pid_t \<Rightarrow> ulong \<Rightarrow> string option \<Rightarrow> walk_state
     \<Rightarrow> fault + ((nat option \<times> cint \<times> bool) option \<times> walk_state)" where
  "new_descendant_entry now os p rss_kb cmd ws =
    (case (case extract_filename_from_cmdline cmd of
             None \<Rightarrow> Inr (profiles (mon ws), 0, - 1)
           | Some strip_ptr \<Rightarrow> attribute_profile (profiles (mon ws)) strip_ptr rss_kb now) of
       Inl f \<Rightarrow> Inl f
     | Inr (pst, profile_peak_mb, pidx) \<Rightarrow>
         (let m = monitoring (mon ws);
              idx = unat (compile_count m)
          in if length (descendants m) \<le> idx then Inl OutOfBounds
             else
               (let m' = m\<lparr>descendants :=
                            (descendants m)[idx := (descendants m ! idx)
                               \<lparr>dpid := p,
                                current_mb := rss_kb div 1024,
                                old_peak_mb := profile_peak_mb,
                                profile_idx := pidx\<rparr>],
                          compile_count := compile_count m + 1\<rparr>
                in case (if 0 < profile_peak_mb
                         then reserve_memory_mb (shm (mon ws)) os p (- profile_peak_mb)
                         else Inr (shm (mon ws), 0)) of
                     Inl f \<Rightarrow> Inl f
                   | Inr (g, rc) \<Rightarrow>
                       Inr (Some (Some idx, pidx, True),
                            ws\<lparr>mon := (mon ws)\<lparr>monitoring := m', profiles := pst,
                                                shm := g\<rparr>\<rparr>))))"

text \<open>
  The loop body up to the recursive call, main.c 1577-1687. \<open>None\<close> in the result is the
  \<open>continue\<close> taken when the table is full.
\<close>

definition visit_pre ::
  "time_t \<Rightarrow> shm_os \<Rightarrow> pid_t \<Rightarrow> pid_t \<Rightarrow> ulong \<Rightarrow> string option \<Rightarrow> walk_state
     \<Rightarrow> fault + ((nat option \<times> cint \<times> bool) option \<times> walk_state)" where
  "visit_pre now os parent_pid p rss_kb cmd ws =
    (let ws1 = ws\<lparr>total_rss_kb := total_rss_kb ws + rss_kb\<rparr>;
         m = monitoring (mon ws)
     in case lookup_descendant (descendants m) (unat (compile_count m)) parent_pid p 0
               (None, - 1, parent_idx ws) of
          Inl f \<Rightarrow> Inl f
        | Inr (descendant_idx, pidx, found_ppidx) \<Rightarrow>
            (let ws2 = (if descendant_idx = None \<and> parent_idx ws \<noteq> found_ppidx
                        then ws1\<lparr>parent_idx := found_ppidx\<rparr> else ws1)
             in if descendant_idx = None \<and> sint (parent_idx ws2) < 0 then
                  (if MAX_TRACKED_DESCENDANTS \<le> unat (compile_count m) then Inr (None, ws2)
                   else new_descendant_entry now os p rss_kb cmd ws2)
                else Inr (Some (descendant_idx, pidx, False), ws2)))"

text \<open>
  The variables the recursive call starts with: \<open>send_idx\<close> as its \<open>parent_idx\<close>, its own
  \<open>total_rss_kb\<close>, the caller's \<open>child_jobs\<close> (0) and the shared \<open>unused_peaks_mb\<close>.
\<close>

definition callee_state :: "cint \<Rightarrow> walk_state \<Rightarrow> walk_state" where
  "callee_state pidx ws =
    ws\<lparr>parent_idx := (if 0 \<le> sint pidx then pidx else parent_idx ws),
       total_rss_kb := 0,
       total_jobs := 0\<rparr>"

text \<open>
  The loop body after the recursive call, main.c 1690-1710. \<open>callee\<close> holds what the
  call returned and left behind.

  A process that is not in the table and was not added to it (its parent is attributed)
  reaches line 1692 with \<open>descendant_idx\<close> at -1, and the shortfall is computed from
  \<open>descendants[-1].old_peak_mb\<close> and \<open>descendants[-1].current_mb\<close>. An entry has 40 bytes
  and the array starts 8 bytes into \<open>main_monitoring_data\<close>, so these are the two words
  16 and 8 bytes below that object. The program reads what lies there, adds the shortfall
  of the two words to \<open>*unused_peaks_mb\<close> and goes on; with \<open>descendant_idx\<close> negative the
  update of lines 1696-1710 is skipped. What lies there is not fixed by the source:
  \<open>below\<close> gives it, as the entry \<open>descendants[-1]\<close> reads it, from the state at the time
  of the read, and every result holds for every \<open>below\<close>.
\<close>

definition visit_post ::
  "(monitor_state \<Rightarrow> descendant) \<Rightarrow> time_t \<Rightarrow> ulong \<Rightarrow> nat option \<times> cint \<times> bool
     \<Rightarrow> walk_state \<Rightarrow> walk_state \<Rightarrow> fault + walk_state" where
  "visit_post below now rss_kb loc ws callee =
    (case loc of (descendant_idx, pidx, new_descendant) \<Rightarrow>
      (let child_rss_kb = total_rss_kb callee;
           ws1 = ws\<lparr>total_rss_kb := total_rss_kb ws + child_rss_kb,
                    total_jobs := total_jobs ws + total_jobs callee,
                    total_unused_peaks_mb := total_unused_peaks_mb callee,
                    mon := mon callee\<rparr>
       in case descendant_idx of
            None \<Rightarrow>
              (let e = below (mon ws1)
               in Inr (ws1\<lparr>total_unused_peaks_mb :=
                            total_unused_peaks_mb ws1 +
                              (if current_mb e < old_peak_mb e
                               then old_peak_mb e - current_mb e else 0)\<rparr>))
          | Some di \<Rightarrow>
              (let m = monitoring (mon ws1);
                   ds = descendants m
               in if length ds \<le> di then Inl OutOfBounds
                  else
                    (let e = ds ! di;
                         ws2 = ws1\<lparr>total_unused_peaks_mb :=
                                     total_unused_peaks_mb ws1 +
                                       (if current_mb e < old_peak_mb e
                                        then old_peak_mb e - current_mb e else 0)\<rparr>
                     in if 0 \<le> sint pidx then
                          (let new_current_mb = (rss_kb + child_rss_kb) div 1024;
                               ws3 = ws2\<lparr>total_jobs := total_jobs ws2 + 1\<rparr>
                           in if current_mb e < new_current_mb \<or> new_descendant then
                                (let e1 = e\<lparr>current_mb := new_current_mb\<rparr>
                                 in if peak_mb e1 < new_current_mb then
                                      (case record_file_memory_usage_by_index
                                              (profiles (mon ws3)) pidx new_current_mb 0 now of
                                         Inl f \<Rightarrow> Inl f
                                       | Inr pst \<Rightarrow>
                                           Inr (ws3\<lparr>mon := (mon ws3)
                                                  \<lparr>monitoring := m\<lparr>descendants :=
                                                       ds[di := e1\<lparr>peak_mb := new_current_mb\<rparr>]\<rparr>,
                                                   profiles := pst\<rparr>\<rparr>))
                                    else
                                      Inr (ws3\<lparr>mon := (mon ws3)
                                             \<lparr>monitoring := m\<lparr>descendants := ds[di := e1]\<rparr>\<rparr>\<rparr>))
                              else Inr ws3)
                        else Inr ws2))))"

text \<open>
  The loop of \<open>find_child_descendants\<close> over the children of \<open>parent_pid\<close>, and its body
  for one of them, which calls \<open>find_child_descendants\<close> for the child's own children
  (the forest stands for a \<open>/proc\<close> that every activation could open).
\<close>

fun walk_children ::
    "(monitor_state \<Rightarrow> descendant) \<Rightarrow> time_t \<Rightarrow> shm_os \<Rightarrow> pid_t \<Rightarrow> proc list \<Rightarrow> walk_state
       \<Rightarrow> fault + walk_state"
  and visit ::
    "(monitor_state \<Rightarrow> descendant) \<Rightarrow> time_t \<Rightarrow> shm_os \<Rightarrow> pid_t \<Rightarrow> proc \<Rightarrow> walk_state
       \<Rightarrow> fault + walk_state" where
  "walk_children below now os parent_pid [] ws = Inr ws"
| "walk_children below now os parent_pid (c # cs) ws =
     (case visit below now os parent_pid c ws of
        Inl f \<Rightarrow> Inl f
      | Inr ws' \<Rightarrow> walk_children below now os parent_pid cs ws')"
| "visit below now os parent_pid (Proc p rss_kb cmd kids) ws =
     (case visit_pre now os parent_pid p rss_kb cmd ws of
        Inl f \<Rightarrow> Inl f
      | Inr (None, ws') \<Rightarrow> Inr ws'
      | Inr (Some loc, ws') \<Rightarrow>
          (case walk_children below now os p kids (callee_state (fst (snd loc)) ws') of
             Inl f \<Rightarrow> Inl f
           | Inr callee \<Rightarrow> visit_post below now rss_kb loc ws' callee))"

text \<open>
  \<open>find_child_descendants (parent_pid, depth, parent_idx, &total_jobs, &unused_peaks_mb)\<close>,
  main.c 1507-1716: the value returned (\<open>total_rss_kb\<close>), the two pointer targets and
  the state left behind. \<open>procs\<close> is \<open>None\<close> when \<open>/proc\<close> cannot be opened.
\<close>

definition find_child_descendants ::
  "(monitor_state \<Rightarrow> descendant) \<Rightarrow> time_t \<Rightarrow> shm_os \<Rightarrow> pid_t \<Rightarrow> proc list option \<Rightarrow> cint
     \<Rightarrow> uint \<Rightarrow> ulong \<Rightarrow> monitor_state \<Rightarrow> fault + (ulong \<times> uint \<times> ulong \<times> monitor_state)" where
  "find_child_descendants below now os parent_pid procs pidx jobs unused st =
    (case procs of
       None \<Rightarrow> Inr (0, jobs, unused, st)
     | Some cs \<Rightarrow>
         (case walk_children below now os parent_pid cs
                 \<lparr>parent_idx = pidx, total_rss_kb = 0, total_jobs = jobs,
                  total_unused_peaks_mb = unused, mon = st\<rparr> of
            Inl f \<Rightarrow> Inl f
          | Inr ws \<Rightarrow>
              Inr (total_rss_kb ws, total_jobs ws, total_unused_peaks_mb ws, mon ws)))"

section \<open>Admission gate\<close>

text \<open>
  Modelled from the spec: the admission gate \<open>may_spawn\<close> and the profile lookup it
  uses are called from job.c, which is not among the sources. The model follows the
  decision steps of the specification: the required peak is the profile's peak, zero
  when the hint is absent or unknown; the host probe gives the free memory or "unknown";
  the imminent memory is read from the shared region; the spawn is admitted when the
  required peak is at most the free memory less the imminent memory, saturating at zero,
  or when it is zero, and always when the free memory is unknown; on admission a
  reservation of the required peak is written at once under the caller's process id.
  Reading the region and writing the reservation are the program's own
  \<open>get_imminent_memory_mb\<close> and \<open>reserve_memory_mb\<close>.
\<close>

datatype decision = Go | Wait

definition saturating_sub :: "ulong \<Rightarrow> ulong \<Rightarrow> ulong" where
  "saturating_sub a b = (if a < b then 0 else a - b)"

definition lookup :: "profile_store \<Rightarrow> string \<Rightarrow> file_memory_profile option" where
  "lookup st path =
    (case memory_profiles st of
       None \<Rightarrow> None
     | Some ps \<Rightarrow>
         find (\<lambda>pr. filename pr = Some path) (take (unat (memory_profile_count st)) ps))"

definition peak_from_profile :: "profile_store \<Rightarrow> string option \<Rightarrow> ulong" where
  "peak_from_profile st hint =
    (case hint of
       None \<Rightarrow> 0
     | Some path \<Rightarrow> (case lookup st path of None \<Rightarrow> 0 | Some pr \<Rightarrow> peak_memory_mb pr))"

definition admits :: "ulong option \<Rightarrow> ulong \<Rightarrow> ulong \<Rightarrow> bool" where
  "admits free imminent required \<longleftrightarrow>
    (case free of
       None \<Rightarrow> True
     | Some f \<Rightarrow> required \<le> saturating_sub f imminent \<or> required = 0)"

definition may_spawn ::
  "profile_store \<Rightarrow> shm_globals \<Rightarrow> shm_os \<Rightarrow> ulong option \<Rightarrow> pid_t \<Rightarrow> string option
     \<Rightarrow> fault + (shm_globals \<times> decision)" where
  "may_spawn st g os free caller hint =
    (let required = peak_from_profile st hint
     in case get_imminent_memory_mb g os of
          Inl f \<Rightarrow> Inl f
        | Inr (g1, imminent) \<Rightarrow>
            if admits free imminent required
            then (case reserve_memory_mb g1 os caller required of
                    Inl f \<Rightarrow> Inl f
                  | Inr (g2, rc) \<Rightarrow> Inr (g2, Go))
            else Inr (g1, Wait))"

text \<open>
  Example regions. The top-level process after the caller 4000 was admitted with 200 MiB;
  a table whose 64 slots are held by the processes 1 to 64; and a region whose total has
  fallen behind its one reservation.
\<close>

definition top_level_globals :: shm_globals where
  "top_level_globals = \<lparr>memory_aware_flag = 1, makelevel = 0, shared_data = Null\<rparr>"

definition region_after_admission :: shared_memory_data where
  "region_after_admission = fst (reserve_in_region zeroed_region 4000 200)"

definition full_region :: shared_memory_data where
  "full_region =
    \<lparr>reservation_count = 64,
     reservations = map (\<lambda>i. \<lparr>pid = of_nat i, reserved_mb = 0\<rparr>) [1..<65],
     unused_peaks_mb = 0,
     total_reserved_mb = 0\<rparr>"

definition desynced_region :: shared_memory_data where
  "desynced_region =
    zeroed_region
      \<lparr>reservation_count := 1,
       reservations := (reservations zeroed_region)[0 := \<lparr>pid = 5000, reserved_mb = 200\<rparr>],
       total_reserved_mb := 0\<rparr>"

definition LONG_MAX :: clong where
  "LONG_MAX = 9223372036854775807"

text \<open>
  Four calls on the zeroed region: three reservations whose sum is \<open>2 ^ 64\<close>, then the
  release of the third.
\<close>

definition three_reservations :: shared_memory_data where
  "three_reservations =
    fst (reserve_in_region
          (fst (reserve_in_region (fst (reserve_in_region zeroed_region 1 LONG_MAX))
                  2 LONG_MAX))
          3 2)"

text \<open>
  Scenario 3 of the specification: the profile \<open>src/c.cpp\<close> with a peak of 200 MiB; the
  caller 4000 holds the reservation of 200 written at admission; pid 5000, a child of
  4000, runs \<open>g++ -c src/c.cpp\<close> with 50 MiB resident.
\<close>

definition zero_descendant :: descendant where
  "zero_descendant =
    \<lparr>dpid = 0, peak_mb = 0, old_peak_mb = 0, current_mb = 0, profile_idx = 0\<rparr>"

definition scenario_profiles :: "file_memory_profile list" where
  "scenario_profiles =
    \<lparr>filename = Some ''src/c.cpp'', peak_memory_mb = 200, last_used = 1700000000\<rparr>
      # replicate 999 zero_profile"

definition scenario_store :: profile_store where
  "scenario_store =
    \<lparr>memory_profiles = Some scenario_profiles,
     memory_profile_count = 1,
     memory_profiles_capacity = 1000,
     memory_profiles_dirty = 0\<rparr>"

definition scenario_state :: monitor_state where
  "scenario_state =
    \<lparr>monitoring =
       \<lparr>compile_count = 0,
        descendants = replicate MAX_TRACKED_DESCENDANTS zero_descendant\<rparr>,
     profiles = scenario_store,
     shm = top_level_globals\<lparr>shared_data := Mapped region_after_admission\<rparr>\<rparr>"

definition scenario_procs :: "proc list" where
  "scenario_procs =
    [Proc 5000 51200
       (Some (''g++'' @ [CHR 0x00] @ ''-c'' @ [CHR 0x00] @ ''src/c.cpp'' @ [CHR 0x00])) []]"

text \<open>
  The relation between the descendant table before and after a piece of the walk, for the
  entries below \<open>b\<close>: each keeps its pid and its \<open>current_mb\<close> has not gone down.
\<close>

definition keeps :: "nat \<Rightarrow> main_monitoring_data \<Rightarrow> main_monitoring_data \<Rightarrow> bool" where
  "keeps b m m' \<longleftrightarrow>
     length (descendants m') = length (descendants m) \<and>
     unat (compile_count m) \<le> unat (compile_count m') \<and>
     (\<forall>i < b. dpid (descendants m' ! i) = dpid (descendants m ! i) \<and>
              current_mb (descendants m ! i) \<le> current_mb (descendants m' ! i))"

text \<open>
  Memory below the table that holds zeros, and memory whose two words, read as
  \<open>descendants[-1]\<close>, show a shortfall of 7 MiB.
\<close>

definition zeros_below :: "monitor_state \<Rightarrow> descendant" where
  "zeros_below st = zero_descendant"

definition seven_below :: "monitor_state \<Rightarrow> descendant" where
  "seven_below st = zero_descendant\<lparr>old_peak_mb := 10, current_mb := 3\<rparr>"

text \<open>The state one tick after the first walk of the scenario, and the region in a state.\<close>

definition scenario_after_walk :: monitor_state where
  "scenario_after_walk =
    (case find_child_descendants zeros_below 1762000000 Open_failed 4000 (Some scenario_procs)
            (- 1) 0 0 scenario_state of
       Inl f \<Rightarrow> scenario_state
     | Inr r \<Rightarrow> snd (snd (snd r)))"

definition region_of :: "monitor_state \<Rightarrow> shared_memory_data" where
  "region_of st = (case shared_data (shm st) of Mapped d \<Rightarrow> d | _ \<Rightarrow> zeroed_region)"

text \<open>
  A compiler driver with a child: pid 5000 runs \<open>g++ -c src/c.cpp\<close> with \<open>a\<close> kB resident
  and its child 5001 runs \<open>cc1plus\<close> with \<open>b\<close> kB resident. \<open>driver_state\<close> is the state
  after the walk that first sees them with 30 MiB and 120 MiB.
\<close>

definition driver_with_child :: "ulong \<Rightarrow> ulong \<Rightarrow> proc list" where
  "driver_with_child a b =
    [Proc 5000 a
       (Some (''g++'' @ [CHR 0x00] @ ''-c'' @ [CHR 0x00] @ ''src/c.cpp'' @ [CHR 0x00]))
       [Proc 5001 b
          (Some (''cc1plus'' @ [CHR 0x00] @ ''-quiet'' @ [CHR 0x00] @ ''-o''
                 @ [CHR 0x00] @ ''/tmp/cc.s'' @ [CHR 0x00])) []]]"

definition driver_state :: monitor_state where
  "driver_state =
    (case find_child_descendants zeros_below 1762000000 Open_failed 4000
            (Some (driver_with_child 30720 122880)) (- 1) 0 0 scenario_state of
       Inl f \<Rightarrow> scenario_state
     | Inr r \<Rightarrow> snd (snd (snd r)))"

text \<open>
  The variables of the top-level call on \<open>driver_state\<close>, and what they are after a walk
  that sees the driver with 40 MiB and its child with 160 MiB.
\<close>

definition driver_walk :: walk_state where
  "driver_walk =
    \<lparr>parent_idx = - 1, total_rss_kb = 0, total_jobs = 0, total_unused_peaks_mb = 0,
     mon = driver_state\<rparr>"

definition driver_grown :: walk_state where
  "driver_grown =
    (case walk_children seven_below 1762000002 Open_failed 4000
            (driver_with_child 40960 163840) driver_walk of
       Inl f \<Rightarrow> driver_walk
     | Inr w \<Rightarrow> w)"

text \<open>
  The reservation of 200 MiB written under the pid the child will have, 5000 (the comment
  of \<open>reserve_memory_mb\<close>: "child PID for jobs"), next to one of 300 MiB under 4000; and the
  scenario state with that region.
\<close>

definition region_child_reserved :: shared_memory_data where
  "region_child_reserved =
    fst (reserve_in_region (fst (reserve_in_region zeroed_region 4000 300)) 5000 200)"

definition child_reserved_state :: monitor_state where
  "child_reserved_state =
    scenario_state\<lparr>shm := top_level_globals\<lparr>shared_data := Mapped region_child_reserved\<rparr>\<rparr>"

text \<open>The variables of the top-level call on that state.\<close>

definition child_reserved_walk :: walk_state where
  "child_reserved_walk =
    \<lparr>parent_idx = - 1, total_rss_kb = 0, total_jobs = 0, total_unused_peaks_mb = 0,
     mon = child_reserved_state\<rparr>"

text \<open>The number of processes in a forest.\<close>

fun proc_count :: "proc \<Rightarrow> nat" where
  "proc_count (Proc p rss_kb cmd kids) = Suc (sum_list (map proc_count kids))"

definition forest_count :: "proc list \<Rightarrow> nat" where
  "forest_count cs = sum_list (map proc_count cs)"

text \<open>
  States from which a walk over \<open>n\<close> processes runs without leaving its arrays. The
  profile array, when allocated, has \<open>memory_profiles_capacity\<close> entries, of which
  \<open>memory_profile_count\<close> are in use, and adding \<open>n\<close> profiles keeps the count below
  \<open>2 ^ 30\<close> (so that doubling the capacity does not wrap and an index fits an \<open>int\<close>). The
  pointer \<open>shared_data\<close> is not \<open>MAP_FAILED\<close> and will not become so, and the table it
  points to, now or once attached, is well-formed. The descendant table has its
  \<open>MAX_TRACKED_DESCENDANTS\<close> entries and \<open>compile_count\<close> is at most that.
\<close>

definition store_ok :: "profile_store \<Rightarrow> nat \<Rightarrow> bool" where
  "store_ok st n \<longleftrightarrow>
     (case memory_profiles st of
        None \<Rightarrow> memory_profiles_capacity st = 0
      | Some ps \<Rightarrow> length ps = unat (memory_profiles_capacity st)) \<and>
     memory_profile_count st \<le> memory_profiles_capacity st \<and>
     unat (memory_profile_count st) + n < 2 ^ 30"

definition shm_ok :: "shm_globals \<Rightarrow> shm_os \<Rightarrow> bool" where
  "shm_ok g os \<longleftrightarrow>
     (case shared_data g of
        Null \<Rightarrow>
          memory_aware_flag g = 0 \<or>
          (case os of
             Open_failed \<Rightarrow> True
           | Mmap_failed \<Rightarrow> False
           | Map_ok d \<Rightarrow> makelevel g = 0 \<or> table_inv d)
      | Map_failed \<Rightarrow> False
      | Mapped d \<Rightarrow> table_inv d)"

definition walk_ready :: "monitor_state \<Rightarrow> shm_os \<Rightarrow> nat \<Rightarrow> bool" where
  "walk_ready st os n \<longleftrightarrow>
     length (descendants (monitoring st)) = MAX_TRACKED_DESCENDANTS \<and>
     unat (compile_count (monitoring st)) \<le> MAX_TRACKED_DESCENDANTS \<and>
     store_ok (profiles st) n \<and> shm_ok (shm st) os"

section \<open>Word arithmetic used below\<close>

lemma sint_nonneg_uint: "0 \<le> sint (w :: 32 word) \<Longrightarrow> sint w = uint w"
proof -
  assume nn: "0 \<le> sint w"
  have "sint w < 2 ^ 31" using sint_lt [of w] by simp
  then have "sint w < 2 ^ 32" by simp
  with nn have "take_bit 32 (sint w) = sint w" by (simp add: take_bit_int_eq_self)
  then show ?thesis using uint_sint [of w] by simp
qed

lemma nat_sint_nonneg: "0 \<le> sint (w :: 32 word) \<Longrightarrow> nat (sint w) = unat w"
  by (simp add: sint_nonneg_uint)

lemma decay_unat:
  assumes "x < (p::ulong)"
  shows "unat (p - (p - x) div 3) = unat p - (unat p - unat x) div 3"
proof -
  have le: "x \<le> p" using assms by simp
  have d: "unat (p - x) = unat p - unat x" using le by (simp add: unat_sub)
  have q: "unat ((p - x) div 3) = (unat p - unat x) div 3" by (simp add: unat_div d)
  have "(p - x) div 3 \<le> p"
    by (simp add: word_le_nat_alt q)
  then show ?thesis by (simp add: unat_sub q)
qed

section \<open>Profile updates\<close>

lemma valid_indexD:
  assumes "valid_index st idx"
  obtains ps where "memory_profiles st = Some ps" and "nat (sint idx) < length ps"
    and "0 \<le> sint idx" and "(ucast idx :: uint) < memory_profile_count st"
proof -
  from assms obtain ps where ps: "memory_profiles st = Some ps"
    and len: "unat (memory_profile_count st) \<le> length ps"
    and nn: "0 \<le> sint idx" and lt: "(ucast idx :: uint) < memory_profile_count st"
    by (auto simp: valid_index_def split: option.splits)
  have "nat (sint idx) < length ps" using nn lt len
    by (simp add: nat_sint_nonneg word_less_nat_alt)
  with ps nn lt show ?thesis using that by blast
qed

lemma example_store_valid: "valid_index example_store 0"
  by (simp add: valid_index_def example_store_def)

text \<open>
  C1. A final update (\<open>final \<noteq> 0\<close>) at a valid index with stored peak \<open>p\<close> and
  observed value \<open>x\<close> stores \<open>x\<close> when \<open>p \<le> x\<close> and \<open>p - (p - x) / 3\<close> when
  \<open>p > x\<close>; the subtraction and the division do not wrap, so the stored word is the
  number \<open>p - (p - x) div 3\<close>; and the dirty flag is 1 afterwards.
\<close>

theorem final_update_peak:
  assumes v: "valid_index st idx" and f: "final \<noteq> 0"
    and p: "stored_peak st (nat (sint idx)) = Some p"
  shows "\<exists>st'. record_file_memory_usage_by_index st idx x final now = Inr st' \<and>
      stored_peak st' (nat (sint idx)) = Some (if p \<le> x then x else p - (p - x) div 3) \<and>
      (x < p \<longrightarrow> unat (p - (p - x) div 3) = unat p - (unat p - unat x) div 3) \<and>
      memory_profiles_dirty st' = 1"
proof -
  from v obtain ps where ps: "memory_profiles st = Some ps"
    and i: "nat (sint idx) < length ps"
    and nn: "0 \<le> sint idx" and lt: "(ucast idx :: uint) < memory_profile_count st"
    by (rule valid_indexD)
  from p ps i have pk: "peak_memory_mb (ps ! nat (sint idx)) = p"
    by (simp add: stored_peak_def)
  show ?thesis using ps nn lt i pk f
    by (auto simp: record_file_memory_usage_by_index_def stored_peak_def Let_def not_le
        decay_unat)
qed

theorem final_update_peak_witness:
  "valid_index example_store 0 \<and> (1 :: cint) \<noteq> 0 \<and>
   stored_peak example_store (nat (sint (0 :: cint))) = Some 900 \<and>
   (\<exists>st'. record_file_memory_usage_by_index example_store 0 600 1 1762000000 = Inr st' \<and>
      stored_peak st' 0 = Some 800 \<and> memory_profiles_dirty st' = 1)"
proof -
  have p: "stored_peak example_store (nat (sint (0 :: cint))) = Some 900"
    by (simp add: stored_peak_def example_store_def)
  have f: "(1 :: cint) \<noteq> 0" by simp
  show ?thesis
    using final_update_peak [OF example_store_valid f p, of 600 1762000000]
      example_store_valid p
    by simp
qed

text \<open>
  C8, as amended. A call at a valid index sets \<open>last_used\<close> to the current time when it
  is final or when the observed value exceeds the stored peak. A non-final call whose
  observed value does not exceed the stored peak returns at the early exit and changes
  nothing, \<open>last_used\<close> included.
\<close>

theorem last_used_update:
  assumes v: "valid_index st idx"
    and p: "stored_peak st (nat (sint idx)) = Some p"
  shows "(final \<noteq> 0 \<or> p < x \<longrightarrow>
           (\<exists>st'. record_file_memory_usage_by_index st idx x final now = Inr st' \<and>
              stored_last_used st' (nat (sint idx)) = Some now)) \<and>
         (final = 0 \<and> x \<le> p \<longrightarrow>
           record_file_memory_usage_by_index st idx x final now = Inr st)"
proof -
  from v obtain ps where ps: "memory_profiles st = Some ps"
    and i: "nat (sint idx) < length ps"
    and nn: "0 \<le> sint idx" and lt: "(ucast idx :: uint) < memory_profile_count st"
    by (rule valid_indexD)
  from p ps i have pk: "peak_memory_mb (ps ! nat (sint idx)) = p"
    by (simp add: stored_peak_def)
  show ?thesis using ps nn lt i pk
    by (auto simp: record_file_memory_usage_by_index_def stored_last_used_def Let_def not_le)
qed

theorem last_used_update_witness:
  "valid_index example_store 0 \<and>
   stored_peak example_store (nat (sint (0 :: cint))) = Some 900 \<and>
   (\<exists>st'. record_file_memory_usage_by_index example_store 0 901 0 1762000000 = Inr st' \<and>
      stored_last_used st' 0 = Some 1762000000) \<and>
   record_file_memory_usage_by_index example_store 0 900 0 1762000000 = Inr example_store"
proof -
  have p: "stored_peak example_store (nat (sint (0 :: cint))) = Some 900"
    by (simp add: stored_peak_def example_store_def)
  show ?thesis
    using last_used_update [OF example_store_valid p, of 0 901 1762000000]
      last_used_update [OF example_store_valid p, of 0 900 1762000000]
      example_store_valid p
    by simp
qed

text \<open>
  C8, as stated, fails: a non-final call with an observed value of 600 against a stored
  peak of 900 leaves \<open>last_used\<close> at its old value 1700000000 although the clock reads
  1762000000.
\<close>

theorem last_used_every_call_counterexample:
  "valid_index example_store 0 \<and>
   record_file_memory_usage_by_index example_store 0 600 0 1762000000 = Inr example_store \<and>
   stored_last_used example_store 0 = Some 1700000000 \<and>
   stored_last_used example_store 0 \<noteq> Some 1762000000"
  by (simp add: valid_index_def record_file_memory_usage_by_index_def stored_last_used_def
      example_store_def)

text \<open>
  C9. With a negative index, an index not below \<open>memory_profile_count\<close>, or an
  unallocated array, the call returns normally (no out-of-bounds access) and the whole
  store, the dirty flag and every profile in it, is what it was.
\<close>

theorem invalid_index_noop:
  assumes "sint idx < 0 \<or> memory_profile_count st \<le> (ucast idx :: uint) \<or>
           memory_profiles st = None"
  shows "record_file_memory_usage_by_index st idx memory_mb final now = Inr st"
  using assms by (auto simp: record_file_memory_usage_by_index_def)

theorem invalid_index_noop_witness:
  "sint (- 1 :: cint) < 0 \<and>
   record_file_memory_usage_by_index example_store (- 1) 5000 1 1762000000 = Inr example_store \<and>
   memory_profile_count example_store \<le> (ucast (1 :: cint) :: uint) \<and>
   record_file_memory_usage_by_index example_store 1 5000 1 1762000000 = Inr example_store \<and>
   memory_profiles unallocated_store = None \<and>
   record_file_memory_usage_by_index unallocated_store 0 5000 1 1762000000
     = Inr unallocated_store"
proof -
  have a: "sint (- 1 :: cint) < 0" by simp
  have b: "memory_profile_count example_store \<le> (ucast (1 :: cint) :: uint)"
    by (simp add: example_store_def)
  have c: "memory_profiles unallocated_store = None"
    by (simp add: unallocated_store_def)
  show ?thesis
    using invalid_index_noop [of "- 1" example_store 5000 1 1762000000]
      invalid_index_noop [of 1 example_store 5000 1 1762000000]
      invalid_index_noop [of 0 unallocated_store 5000 1 1762000000] a b c
    by simp
qed

section \<open>Classifier: the scanning loop and its helpers\<close>

lemma scan_step_qualifies:
  "scan_step t i e = (if qualifies t i then candidate_end t i else e)"
  by (auto simp: scan_step_def qualifies_def split: option.splits)

lemma scan_filter:
  "scan t n i e =
    (case rev (filter (qualifies t) [i..<min (length t) n]) of
       [] \<Rightarrow> e
     | j # _ \<Rightarrow> candidate_end t j)"
proof (induction t n i e rule: scan.induct)
  case (1 t n i e)
  show ?case
  proof (cases "i < length t \<and> i < n")
    case True
    then have upt: "[i..<min (length t) n] = i # [Suc i..<min (length t) n]"
      by (simp add: upt_conv_Cons)
    have step: "scan t n i e = scan t n (Suc i) (scan_step t i e)"
      using True by (subst scan.simps) simp
    show ?thesis
      unfolding step "1.IH" [OF True] upt
      by (auto simp: scan_step_qualifies split: list.splits)
  next
    case False
    then show ?thesis by (subst scan.simps) auto
  qed
qed

lemma extract_filename_common_occ:
  "extract_filename_common t n = classify_last_occurrence t n"
  by (auto simp: extract_filename_common_def classify_last_occurrence_def scan_filter Let_def
      split: list.splits option.splits)

lemma backtrack_le: "backtrack stop t s \<le> s"
  by (induction s) auto

lemma backtrack_no_stop: "backtrack stop t s \<le> k \<Longrightarrow> k < s \<Longrightarrow> \<not> stop (t ! k)"
proof (induction s)
  case 0
  then show ?case by simp
next
  case (Suc s)
  then show ?case
    by (cases "k = s") (auto split: if_splits)
qed

lemma backtrack_le_if:
  "j \<le> s \<Longrightarrow> (\<And>k. j \<le> k \<Longrightarrow> k < s \<Longrightarrow> \<not> stop (t ! k)) \<Longrightarrow> backtrack stop t s \<le> j"
proof (induction s)
  case 0
  then show ?case by simp
next
  case (Suc s)
  show ?case
  proof (cases "j = Suc s")
    case True
    then show ?thesis using backtrack_le [of stop t "Suc s"] by simp
  next
    case False
    with Suc.prems(1) have js: "j \<le> s" by simp
    have ns: "\<not> stop (t ! s)" using Suc.prems(2) [of s] js by simp
    have "backtrack stop t s \<le> j"
      using Suc.IH [OF js] Suc.prems(2) by simp
    with ns show ?thesis by simp
  qed
qed

lemma backtrack_zero: "(\<And>k. k < s \<Longrightarrow> \<not> stop (t ! k)) \<Longrightarrow> backtrack stop t s = 0"
  using backtrack_le_if [of 0 s stop t] by simp

lemma candidate_endD:
  assumes "candidate_end t i = Some e"
  shows "\<exists>ext \<in> set source_suffixes. take (length ext) (drop i t) = ext \<and> e + 1 = i + length ext"
  using assms
  by (auto simp: candidate_end_def strncmp_eq_def source_suffixes_def split: if_splits)

lemma take_drop_eq_bound:
  assumes "take (length ext) (drop i t) = ext" and "ext \<noteq> []"
  shows "i + length ext \<le> length t"
proof -
  have "length (take (length ext) (drop i t)) = length ext" using assms by simp
  then show ?thesis using assms(2) by (cases ext) (auto simp: min_def split: if_splits)
qed

lemma source_suffixes_nonempty: "ext \<in> set source_suffixes \<Longrightarrow> ext \<noteq> []"
  by (auto simp: source_suffixes_def)

lemma source_suffixes_plain:
  "ext \<in> set source_suffixes \<Longrightarrow> c \<in> set ext \<Longrightarrow> \<not> is_space_or_quote c \<and> c \<noteq> CHR ''/''"
  by (auto simp: source_suffixes_def is_space_or_quote_def)

lemma strip_dotdot_no_prefix: "\<not> strncmp_eq (strip_dotdot s) 0 ''../''"
proof (induction s rule: strip_dotdot.induct)
  case (1 s)
  then show ?case by (subst strip_dotdot.simps) auto
qed

lemma strip_dotdot_set: "set (strip_dotdot s) \<subseteq> set s"
proof (induction s rule: strip_dotdot.induct)
  case (1 s)
  show ?case
  proof (cases "strncmp_eq s 0 ''../''")
    case True
    have "set (strip_dotdot (drop 3 s)) \<subseteq> set (drop 3 s)" using 1 True by simp
    also have "\<dots> \<subseteq> set s" by (rule set_drop_subset)
    finally show ?thesis using True by (subst strip_dotdot.simps) simp
  next
    case False
    then show ?thesis by (subst strip_dotdot.simps) simp
  qed
qed

lemma strip_dotdot_length: "length (strip_dotdot s) \<le> length s"
proof (induction s rule: strip_dotdot.induct)
  case (1 s)
  show ?case
  proof (cases "strncmp_eq s 0 ''../''")
    case True
    have "length (strip_dotdot (drop 3 s)) \<le> length (drop 3 s)" using 1 True by simp
    then show ?thesis using True by (subst strip_dotdot.simps) simp
  next
    case False
    then show ?thesis by (subst strip_dotdot.simps) simp
  qed
qed

lemma strip_dotdot_fix: "\<not> strncmp_eq s 0 ''../'' \<Longrightarrow> strip_dotdot s = s"
  by (subst strip_dotdot.simps) simp

lemma suffix_drop_dotdot:
  assumes ext: "ext \<in> set source_suffixes" and suf: "suffix ext s"
    and pre: "strncmp_eq s 0 ''../''"
  shows "suffix ext (drop 3 s)"
proof -
  from pre have s: "s = ''../'' @ drop 3 s"
    by (metis append_take_drop_id drop0 length_Cons list.size(3) numeral_3_eq_3 strncmp_eq_def)
  from suf s have "suffix ext (''../'' @ drop 3 s)" by simp
  then have alt: "suffix ext (drop 3 s) \<or> (\<exists>xs. ext = xs @ drop 3 s \<and> suffix xs ''../'')"
    by (simp only: suffix_append)
  show ?thesis
  proof (rule disjE [OF alt])
    assume "suffix ext (drop 3 s)"
    then show ?thesis .
  next
    assume "\<exists>xs. ext = xs @ drop 3 s \<and> suffix xs ''../''"
    then obtain xs where e: "ext = xs @ drop 3 s" and x: "suffix xs ''../''" by blast
    show ?thesis
    proof (cases "xs = []")
      case True
      with e show ?thesis by simp
    next
      case False
      from x obtain ys where ys: "''../'' = ys @ xs" by (auto simp: suffix_def)
      with False have "last xs = CHR ''/''"
        by (metis last.simps last_appendR list.distinct(1))
      with False have "CHR ''/'' \<in> set xs" by (metis last_in_set)
      with e have "CHR ''/'' \<in> set ext" by simp
      with source_suffixes_plain [OF ext] show ?thesis by blast
    qed
  qed
qed

lemma strip_dotdot_suffix:
  "ext \<in> set source_suffixes \<Longrightarrow> suffix ext s \<Longrightarrow> suffix ext (strip_dotdot s)"
proof (induction s rule: strip_dotdot.induct)
  case (1 s)
  show ?case
  proof (cases "strncmp_eq s 0 ''../''")
    case True
    have "suffix ext (drop 3 s)" using suffix_drop_dotdot [OF "1.prems" True] .
    then have "suffix ext (strip_dotdot (drop 3 s))" using 1 True by simp
    then show ?thesis using True by (subst strip_dotdot.simps) simp
  next
    case False
    then show ?thesis using "1.prems" by (subst strip_dotdot.simps) simp
  qed
qed

lemma substr_map: "b < length t \<Longrightarrow> substr t a b = map ((!) t) [a..<Suc b]"
  by (rule nth_equalityI) (auto simp: substr_def simp del: upt_Suc)

lemma length_substr: "b < length t \<Longrightarrow> a \<le> b \<Longrightarrow> length (substr t a b) = b - a + 1"
  by (simp add: substr_map)

lemma set_substr:
  "b < length t \<Longrightarrow> set (substr t a b) = {t ! k | k. a \<le> k \<and> k \<le> b}"
  by (auto simp: substr_map)

lemma substr_split:
  "a \<le> i \<Longrightarrow> i \<le> b \<Longrightarrow> substr t a b = take (i - a) (drop a t) @ substr t i b"
proof -
  assume ai: "a \<le> i" and ib: "i \<le> b"
  have "Suc b - a = (i - a) + (Suc b - i)" using ai ib by simp
  then have "take (Suc b - a) (drop a t) =
      take (i - a) (drop a t) @ take (Suc b - i) (drop (i - a) (drop a t))"
    by (simp only: take_add)
  then show ?thesis using ai by (simp add: substr_def)
qed

lemma substr_whole: "t \<noteq> [] \<Longrightarrow> substr t 0 (length t - 1) = t"
  by (cases t) (simp_all add: substr_def)

text \<open>What the recognised occurrence looks like inside the text.\<close>

lemma candidate_end_substr:
  assumes "candidate_end t i = Some e"
  shows "\<exists>ext \<in> set source_suffixes. substr t i e = ext \<and> e + 1 = i + length ext \<and> e < length t"
proof -
  from candidate_endD [OF assms] obtain ext where ext: "ext \<in> set source_suffixes"
    and tk: "take (length ext) (drop i t) = ext" and e: "e + 1 = i + length ext"
    by blast
  from take_drop_eq_bound [OF tk source_suffixes_nonempty [OF ext]]
  have "i + length ext \<le> length t" .
  with e have "e < length t" by simp
  moreover have "Suc e - i = length ext" using e by simp
  then have "substr t i e = ext" using tk by (simp add: substr_def)
  ultimately show ?thesis using ext e by blast
qed

lemma classified_path_like:
  assumes "extract_filename_common t n = Some r"
  shows "path_like r"
proof -
  from assms obtain i e where ce: "candidate_end t i = Some e"
    and len: "e - backtrack is_space_or_quote t e + 1 < 1000"
    and r: "r = strip_dotdot (substr t (backtrack is_space_or_quote t e) e)"
    by (auto simp: extract_filename_common_occ classify_last_occurrence_def Let_def
        split: list.splits option.splits if_splits)
  define s where "s = backtrack is_space_or_quote t e"
  from candidate_end_substr [OF ce] obtain ext where ext: "ext \<in> set source_suffixes"
    and sl: "substr t i e = ext" and e: "e + 1 = i + length ext" and elt: "e < length t"
    by blast
  have ie: "i \<le> e" using e source_suffixes_nonempty [OF ext] by (cases ext) auto
  have se: "s \<le> e" unfolding s_def by (rule backtrack_le)
  have ext_chars: "\<And>k. i \<le> k \<Longrightarrow> k \<le> e \<Longrightarrow> \<not> is_space_or_quote (t ! k)"
  proof -
    fix k assume "i \<le> k" "k \<le> e"
    then have "t ! k \<in> set (substr t i e)" using elt by (auto simp: set_substr)
    with sl source_suffixes_plain [OF ext] show "\<not> is_space_or_quote (t ! k)" by simp
  qed
  have si: "s \<le> i" unfolding s_def
    by (rule backtrack_le_if [OF ie]) (simp add: ext_chars)
  have plain: "\<forall>c \<in> set (substr t s e). \<not> is_space_or_quote c"
  proof
    fix c assume "c \<in> set (substr t s e)"
    then obtain k where c: "c = t ! k" and k: "s \<le> k" "k \<le> e"
      using elt by (auto simp: set_substr)
    show "\<not> is_space_or_quote c"
    proof (cases "k < e")
      case True
      then show ?thesis using backtrack_no_stop [of is_space_or_quote t e k] k c
        by (simp add: s_def)
    next
      case False
      with k have "k = e" by simp
      then show ?thesis using ext_chars [of e] ie c by simp
    qed
  qed
  have "substr t s e = take (i - s) (drop s t) @ ext"
    using substr_split [OF si ie, of t] sl by simp
  then have suf: "suffix ext (substr t s e)" by (simp add: suffix_def)
  have "length (substr t s e) < 1000" using length_substr [OF elt se] len by (simp add: s_def)
  then have l: "length r < 1000"
    using strip_dotdot_length [of "substr t s e"] r by (simp add: s_def)
  have "suffix ext r" using strip_dotdot_suffix [OF ext suf] r by (simp add: s_def)
  moreover have "\<forall>c \<in> set r. \<not> is_space_or_quote c"
    using plain strip_dotdot_set [of "substr t s e"] r by (auto simp: s_def)
  moreover have "\<not> strncmp_eq r 0 ''../''" using r by (simp add: strip_dotdot_no_prefix)
  ultimately show ?thesis using ext l by (auto simp: path_like_def)
qed

lemma candidate_end_at_suffix:
  assumes "ext \<in> set source_suffixes"
  shows "candidate_end (pre @ ext) (length pre) = Some (length (pre @ ext) - 1)"
  using assms by (auto simp: source_suffixes_def candidate_end_def strncmp_eq_def)

lemma candidate_end_inside_suffix:
  assumes "ext \<in> set source_suffixes" and "length pre < j"
  shows "candidate_end (pre @ ext) j = None"
proof -
  obtain d where j: "j = length pre + Suc d" using assms(2) less_iff_Suc_add by auto
  have d1: "drop j (pre @ ext) = drop (Suc d) ext" by (simp add: j)
  have "\<And>lit. lit \<in> set source_suffixes \<Longrightarrow> take (length lit) (drop (Suc d) ext) \<noteq> lit"
    using assms(1)
    by (cases d; cases "d - 1"; cases "d - 2") (auto simp: source_suffixes_def)
  then have ns: "\<And>lit. lit \<in> set source_suffixes \<Longrightarrow> \<not> strncmp_eq (pre @ ext) j lit"
    unfolding strncmp_eq_def d1 by blast
  have "\<not> strncmp_eq (pre @ ext) j ''.cpp''" "\<not> strncmp_eq (pre @ ext) j ''.cc''"
    "\<not> strncmp_eq (pre @ ext) j ''.c''"
    by (rule ns, simp add: source_suffixes_def)+
  then show ?thesis
    by (simp add: candidate_end_def)
qed

lemma is_space_imp: "is_space c \<Longrightarrow> is_space_or_quote c"
  by (simp add: is_space_def is_space_or_quote_def)

lemma path_like_fixed:
  assumes pl: "path_like r" and sl: "CHR ''/'' \<in> set r" and n: "length r \<le> n"
  shows "extract_filename_common r n = Some r"
proof -
  from pl obtain ext pre where ext: "ext \<in> set source_suffixes" and r: "r = pre @ ext"
    and plain: "\<And>c. c \<in> set r \<Longrightarrow> \<not> is_space_or_quote c"
    and nodd: "\<not> strncmp_eq r 0 ''../''" and len: "length r < 1000"
    by (auto simp: path_like_def suffix_def)
  define i0 where "i0 = length pre"
  define e where "e = length r - 1"
  have rne: "r \<noteq> []" using sl by auto
  have i0: "i0 < length r" using r source_suffixes_nonempty [OF ext] by (simp add: i0_def)
  have ce: "candidate_end r i0 = Some e"
    unfolding r i0_def e_def by (rule candidate_end_at_suffix [OF ext])
  have no_q: "\<And>k. k < length r \<Longrightarrow> \<not> is_space_or_quote (r ! k)"
    using plain by simp
  have no_s: "\<And>k. k < length r \<Longrightarrow> \<not> is_space (r ! k)"
    using no_q is_space_imp by blast
  have b1: "backtrack is_space r i0 = 0"
    by (rule backtrack_zero) (use no_s i0 in auto)
  have b2: "backtrack is_space_or_quote r e = 0"
    by (rule backtrack_zero) (use no_q rne in \<open>auto simp: e_def\<close>)
  have whole: "substr r 0 e = r" unfolding e_def by (rule substr_whole [OF rne])
  have q0: "qualifies r i0" using ce b1 whole sl by (simp add: qualifies_def has_slash_def)
  have later: "\<And>j. i0 < j \<Longrightarrow> \<not> qualifies r j"
    using candidate_end_inside_suffix [OF ext, of pre] by (simp add: qualifies_def r i0_def)
  have "[0..<length r] = [0..<i0] @ [i0..<length r]"
    using i0 by (metis upt_add_eq_append le0 le_add_diff_inverse less_imp_le_nat)
  moreover have "[i0..<length r] = i0 # [Suc i0..<length r]"
    using i0 by (simp add: upt_conv_Cons)
  ultimately have "[0..<length r] = [0..<i0] @ i0 # [Suc i0..<length r]" by simp
  moreover have "filter (qualifies r) [Suc i0..<length r] = []"
    using later by (auto simp: filter_empty_conv)
  ultimately have "rev (filter (qualifies r) [0..<length r]) =
      i0 # rev (filter (qualifies r) [0..<i0])"
    using q0 by simp
  moreover have "min (length r) n = length r" using n by simp
  ultimately have "classify_last_occurrence r n = Some (strip_dotdot r)"
    using ce b2 whole len rne by (simp add: classify_last_occurrence_def e_def)
  then show ?thesis using nodd by (simp add: extract_filename_common_occ strip_dotdot_fix)
qed

section \<open>Classifier: claims\<close>

lemma qualifies_slash: "qualifies t i \<Longrightarrow> CHR ''/'' \<in> set t"
proof -
  assume "qualifies t i"
  then obtain e where "CHR ''/'' \<in> set (substr t (backtrack is_space t i) e)"
    by (auto simp: qualifies_def has_slash_def split: option.splits)
  then show ?thesis unfolding substr_def by (meson in_set_dropD in_set_takeD)
qed

lemma no_slash_none:
  assumes "CHR ''/'' \<notin> set t"
  shows "extract_filename_common t n = None"
proof -
  have "filter (qualifies t) [0..<min (length t) n] = []"
    using assms qualifies_slash by (auto simp: filter_empty_conv)
  then show ?thesis
    by (simp add: extract_filename_common_occ classify_last_occurrence_def)
qed

lemma argv_single: "length r < 4095 \<Longrightarrow>
  extract_filename_from_argv [r] = extract_filename_common r (length r)"
  by (simp add: extract_filename_from_argv_def)

lemma reclassify:
  assumes "path_like r"
  shows "extract_filename_from_argv [r] = (if CHR ''/'' \<in> set r then Some r else None)"
proof -
  have "length r < 4095" using assms by (simp add: path_like_def)
  then have "extract_filename_from_argv [r] = extract_filename_common r (length r)"
    by (rule argv_single)
  then show ?thesis using path_like_fixed [OF assms, of "length r"] no_slash_none [of r]
    by simp
qed

lemma argv_path_like: "extract_filename_from_argv argv = Some r \<Longrightarrow> path_like r"
  by (auto simp: extract_filename_from_argv_def Let_def classified_path_like split: if_splits)

lemma cmdline_path_like: "extract_filename_from_cmdline raw = Some r \<Longrightarrow> path_like r"
  by (auto simp: extract_filename_from_cmdline_def Let_def classified_path_like
      split: if_splits option.splits)

text \<open>
  C6, as amended. Classifying a classified path again gives the same path whenever that
  path still contains a slash, and none otherwise (stripping \<open>../\<close> or cutting at a
  double quote can remove the only slash).
\<close>

theorem reclassify_with_slash:
  assumes "extract_filename_from_argv argv = Some r \<or> extract_filename_from_cmdline raw = Some r"
  shows "extract_filename_from_argv [r] = (if CHR ''/'' \<in> set r then Some r else None)"
  using assms argv_path_like cmdline_path_like reclassify by blast

theorem reclassify_with_slash_witness:
  "extract_filename_from_argv [''g++'', ''-c'', ''../../src/a.cpp'', ''-o'', ''obj/a.o'']
     = Some ''src/a.cpp'' \<and>
   extract_filename_from_argv [''src/a.cpp''] = Some ''src/a.cpp''"
proof -
  have a: "extract_filename_from_argv [''g++'', ''-c'', ''../../src/a.cpp'', ''-o'', ''obj/a.o'']
     = Some ''src/a.cpp''" by code_simp
  show ?thesis
    using reclassify_with_slash [of "[''g++'', ''-c'', ''../../src/a.cpp'', ''-o'', ''obj/a.o'']"
        "''src/a.cpp''" None] a
    by simp
qed

text \<open>
  C6, as stated, fails: \<open>../main.c\<close> is classified to \<open>main.c\<close>, which has no
  slash left and is classified to none.
\<close>

theorem classify_idempotent_counterexample:
  "extract_filename_from_argv [''gcc'', ''-c'', ''../main.c''] = Some ''main.c'' \<and>
   extract_filename_from_argv [''main.c''] = None"
  by code_simp

section \<open>Shared accounting region: slot search and table invariant\<close>

lemma find_pid_Some:
  "find_pid rs p i n = Some k \<Longrightarrow>
     i \<le> k \<and> k < n \<and> pid (rs ! k) = p \<and> (\<forall>j. i \<le> j \<and> j < k \<longrightarrow> pid (rs ! j) \<noteq> p)"
proof (induction rs p i n rule: find_pid.induct)
  case (1 rs p i n)
  have i: "i < n"
  proof (rule ccontr)
    assume "\<not> i < n"
    then have "find_pid rs p i n = None" by (subst find_pid.simps) simp
    with "1.prems" show False by simp
  qed
  have unf: "find_pid rs p i n =
      (if pid (rs ! i) = p then Some i else find_pid rs p (Suc i) n)"
    using i by (subst find_pid.simps) simp
  show ?case
  proof (cases "pid (rs ! i) = p")
    case True
    with unf "1.prems" have "k = i" by simp
    with True i show ?thesis by auto
  next
    case False
    with unf "1.prems" have "find_pid rs p (Suc i) n = Some k" by simp
    from "1.IH" [OF i False this]
    have ih: "Suc i \<le> k" "k < n" "pid (rs ! k) = p"
      "\<And>j. Suc i \<le> j \<Longrightarrow> j < k \<Longrightarrow> pid (rs ! j) \<noteq> p"
      by blast+
    have "pid (rs ! j) \<noteq> p" if "i \<le> j" "j < k" for j
    proof (cases "j = i")
      case True
      with False show ?thesis by simp
    next
      case False
      with that have "Suc i \<le> j" by simp
      then show ?thesis using ih(4) that by blast
    qed
    with ih(1-3) show ?thesis by auto
  qed
qed

lemma find_pid_None:
  "find_pid rs p i n = None \<Longrightarrow> i \<le> j \<Longrightarrow> j < n \<Longrightarrow> pid (rs ! j) \<noteq> p"
proof (induction rs p i n rule: find_pid.induct)
  case (1 rs p i n)
  have i: "i < n" using "1.prems" by simp
  have unf: "find_pid rs p i n =
      (if pid (rs ! i) = p then Some i else find_pid rs p (Suc i) n)"
    using i by (subst find_pid.simps) simp
  have ne: "pid (rs ! i) \<noteq> p" using "1.prems"(1) unf by (auto split: if_splits)
  have rest: "find_pid rs p (Suc i) n = None" using "1.prems"(1) unf ne by simp
  show ?case
  proof (cases "j = i")
    case True
    with ne show ?thesis by simp
  next
    case False
    then show ?thesis using "1.IH" [OF i ne rest] "1.prems" by simp
  qed
qed

lemma sint_small: "unat (c :: 32 word) \<le> 64 \<Longrightarrow> sint c = uint c"
proof -
  assume a: "unat c \<le> 64"
  have "int (unat c) \<le> int 64" using a by (simp only: of_nat_le_iff)
  then have "uint c \<le> 64" by simp
  also have "(64 :: int) < 2 ^ 31" by simp
  finally have lt: "uint c < 2 ^ 31" .
  have "- (2 ^ 31) \<le> (0 :: int)" by simp
  also have "0 \<le> uint c" by simp
  finally have ge: "- (2 ^ 31) \<le> uint c" .
  have "signed_take_bit 31 (uint c) = uint c"
    using ge lt by (rule signed_take_bit_int_eq_self)
  then show ?thesis using sint_uint [of c] by simp
qed

lemma existing_limit_inv:
  "table_inv d \<Longrightarrow> existing_limit (reservation_count d) = unat (reservation_count d)"
  by (simp add: table_inv_def existing_limit_def sint_small MAX_RESERVATIONS_def)

lemma zeroed_region_inv: "table_inv zeroed_region"
  by (auto simp: table_inv_def zeroed_region_def MAX_RESERVATIONS_def)

lemma apply_reservation_frame:
  assumes "i < length (reservations d)"
  shows "length (reservations (fst (apply_reservation d i p mb))) = length (reservations d)"
    and "reservation_count (fst (apply_reservation d i p mb)) = reservation_count d"
    and "unused_peaks_mb (fst (apply_reservation d i p mb)) = unused_peaks_mb d"
    and "j \<noteq> i \<Longrightarrow> reservations (fst (apply_reservation d i p mb)) ! j = reservations d ! j"
    and "pid (reservations (fst (apply_reservation d i p mb)) ! i) =
           (if sint mb \<le> 0 \<and> pid (reservations d ! i) = p then 0 else pid (reservations d ! i))"
    and "reserved_mb (reservations (fst (apply_reservation d i p mb)) ! i) =
           (if sint mb \<le> 0 then 0 else mb)"
  using assms by (auto simp: apply_reservation_def Let_def)

text \<open>Clearing or keeping the owner of one slot keeps a table well-formed.\<close>

lemma table_inv_update:
  assumes inv: "table_inv d" and i: "i < MAX_RESERVATIONS"
    and len: "length (reservations d') = length (reservations d)"
    and cnt: "reservation_count d' = reservation_count d"
    and others: "\<And>j. j \<noteq> i \<Longrightarrow> reservations d' ! j = reservations d ! j"
    and here: "pid (reservations d' ! i) = 0 \<or> pid (reservations d' ! i) = pid (reservations d ! i)"
  shows "table_inv d'"
proof -
  have pids: "\<And>j. pid (reservations d' ! j) = 0 \<or> pid (reservations d' ! j) = pid (reservations d ! j)"
    using others here by metis
  have same: "\<And>j. pid (reservations d' ! j) \<noteq> 0 \<Longrightarrow> pid (reservations d' ! j) = pid (reservations d ! j)"
    using pids by metis
  show ?thesis
    unfolding table_inv_def
  proof (intro conjI allI impI)
    show "length (reservations d') = MAX_RESERVATIONS" using inv len by (simp add: table_inv_def)
    show "unat (reservation_count d') \<le> MAX_RESERVATIONS" using inv cnt by (simp add: table_inv_def)
  next
    fix j assume "unat (reservation_count d') \<le> j \<and> j < MAX_RESERVATIONS"
    then have "pid (reservations d ! j) = 0" using inv cnt by (simp add: table_inv_def)
    then show "pid (reservations d' ! j) = 0" using pids [of j] by auto
  next
    fix a b
    assume h: "a < MAX_RESERVATIONS \<and> b < MAX_RESERVATIONS \<and>
       pid (reservations d' ! a) = pid (reservations d' ! b) \<and> pid (reservations d' ! a) \<noteq> 0"
    then have "pid (reservations d ! a) = pid (reservations d ! b)" "pid (reservations d ! a) \<noteq> 0"
      using same [of a] same [of b] by auto
    then show "a = b" using inv h unfolding table_inv_def by blast
  qed
qed

lemma apply_reservation_inv:
  assumes "table_inv d" and "i < MAX_RESERVATIONS"
  shows "table_inv (fst (apply_reservation d i p mb))"
proof -
  have l: "i < length (reservations d)" using assms by (simp add: table_inv_def)
  show ?thesis
    by (rule table_inv_update [OF assms])
       (use apply_reservation_frame [OF l, where p=p and mb=mb] in auto)
qed


text \<open>The three ways \<open>reserve_memory_mb\<close> goes through a well-formed table.\<close>

lemma reserve_in_region_cases:
  assumes inv: "table_inv d"
  obtains
    (found) k where "k < unat (reservation_count d)" and "pid (reservations d ! k) = p"
      and "reserve_in_region d p mb = apply_reservation d k p mb"
  | (unchanged) "\<And>j. j < unat (reservation_count d) \<Longrightarrow> pid (reservations d ! j) \<noteq> p"
      and "reserve_in_region d p mb = (d, 0)"
      and "mb = 0 \<or> (\<forall>j < MAX_RESERVATIONS. pid (reservations d ! j) \<noteq> 0)"
  | (fresh) e where "\<And>j. j < unat (reservation_count d) \<Longrightarrow> pid (reservations d ! j) \<noteq> p"
      and "mb \<noteq> 0" and "e < MAX_RESERVATIONS" and "pid (reservations d ! e) = 0"
      and "reserve_in_region d p mb =
        apply_reservation
          (d\<lparr>reservations := (reservations d)[e := \<lparr>pid = p, reserved_mb = 0\<rparr>],
             reservation_count :=
               (if sint (reservation_count d) \<le> int e then of_nat (e + 1)
                else reservation_count d)\<rparr>) e p mb"
proof -
  let ?n = "unat (reservation_count d)"
  have lim: "existing_limit (reservation_count d) = ?n" by (rule existing_limit_inv [OF inv])
  show ?thesis
  proof (cases "find_pid (reservations d) p 0 ?n")
    case (Some k)
    from find_pid_Some [OF Some] have "k < ?n" "pid (reservations d ! k) = p" by auto
    moreover have "reserve_in_region d p mb = apply_reservation d k p mb"
      using Some lim by (simp add: reserve_in_region_def)
    ultimately show ?thesis by (rule found)
  next
    case None
    have absent: "\<And>j. j < ?n \<Longrightarrow> pid (reservations d ! j) \<noteq> p"
      using find_pid_None [OF None] by simp
    show ?thesis
    proof (cases "mb = 0")
      case True
      then have "reserve_in_region d p mb = (d, 0)"
        using None lim by (simp add: reserve_in_region_def)
      with absent True show ?thesis by (intro unchanged) auto
    next
      case False
      show ?thesis
      proof (cases "find_pid (reservations d) 0 0 MAX_RESERVATIONS")
        case N2: None
        have "reserve_in_region d p mb = (d, 0)"
          using None N2 False lim by (simp add: reserve_in_region_def)
        moreover have "\<forall>j < MAX_RESERVATIONS. pid (reservations d ! j) \<noteq> 0"
          using find_pid_None [OF N2] by simp
        ultimately show ?thesis using absent by (intro unchanged) auto
      next
        case (Some e)
        from find_pid_Some [OF Some] have e: "e < MAX_RESERVATIONS" "pid (reservations d ! e) = 0"
          by auto
        show ?thesis
          by (rule fresh [OF absent False e])
             (use None Some False lim in \<open>simp_all add: reserve_in_region_def\<close>)
      qed
    qed
  qed
qed

lemma unat_of_nat_slot: "e < MAX_RESERVATIONS \<Longrightarrow> unat (of_nat (e + 1) :: uint) = e + 1"
proof -
  assume "e < MAX_RESERVATIONS"
  then have "e + 1 < 2 ^ LENGTH(32)" by (simp add: MAX_RESERVATIONS_def)
  then show ?thesis by (rule of_nat_inverse [OF refl])
qed

lemma uint_le_int: "uint (c :: uint) \<le> int e \<longleftrightarrow> unat c \<le> e"
  unfolding uint_nat by (rule of_nat_le_iff)

lemma new_slot_inv:
  assumes inv: "table_inv d" and e: "e < MAX_RESERVATIONS" and free: "pid (reservations d ! e) = 0"
    and absent: "\<And>j. j < unat (reservation_count d) \<Longrightarrow> pid (reservations d ! j) \<noteq> p"
  shows "table_inv
          (d\<lparr>reservations := (reservations d)[e := \<lparr>pid = p, reserved_mb = 0\<rparr>],
             reservation_count :=
               (if sint (reservation_count d) \<le> int e then of_nat (e + 1)
                else reservation_count d)\<rparr>)"
    (is "table_inv ?d1")
proof -
  let ?n = "unat (reservation_count d)"
  from inv have len: "length (reservations d) = MAX_RESERVATIONS" and n: "?n \<le> MAX_RESERVATIONS"
    and tail: "\<And>i. ?n \<le> i \<Longrightarrow> i < MAX_RESERVATIONS \<Longrightarrow> pid (reservations d ! i) = 0"
    and dist: "\<And>i j. i < MAX_RESERVATIONS \<Longrightarrow> j < MAX_RESERVATIONS \<Longrightarrow>
        pid (reservations d ! i) = pid (reservations d ! j) \<Longrightarrow>
        pid (reservations d ! i) \<noteq> 0 \<Longrightarrow> i = j"
    unfolding table_inv_def by blast+
  have s: "sint (reservation_count d) \<le> int e \<longleftrightarrow> ?n \<le> e"
    using sint_small [of "reservation_count d"] n
    by (simp add: MAX_RESERVATIONS_def uint_le_int)
  have cnt: "unat (reservation_count ?d1) = (if ?n \<le> e then e + 1 else ?n)"
    using unat_of_nat_slot [OF e] by (simp add: s)
  have nth: "\<And>j. j < MAX_RESERVATIONS \<Longrightarrow>
      pid (reservations ?d1 ! j) = (if j = e then p else pid (reservations d ! j))"
    using len e by (simp add: nth_list_update)
  have other: "\<And>j. j < MAX_RESERVATIONS \<Longrightarrow> j \<noteq> e \<Longrightarrow> p \<noteq> 0 \<Longrightarrow>
      pid (reservations d ! j) \<noteq> p"
  proof -
    fix j assume j: "j < MAX_RESERVATIONS" "j \<noteq> e" "p \<noteq> 0"
    show "pid (reservations d ! j) \<noteq> p"
    proof (cases "j < ?n")
      case True
      then show ?thesis by (rule absent)
    next
      case False
      then have "pid (reservations d ! j) = 0" using tail j by simp
      with j show ?thesis by simp
    qed
  qed
  show ?thesis
    unfolding table_inv_def
  proof (intro conjI allI impI)
    show "length (reservations ?d1) = MAX_RESERVATIONS" using len by simp
    show "unat (reservation_count ?d1) \<le> MAX_RESERVATIONS"
      unfolding cnt using n e by simp
  next
    fix i assume "unat (reservation_count ?d1) \<le> i \<and> i < MAX_RESERVATIONS"
    then have i: "(if ?n \<le> e then e + 1 else ?n) \<le> i" "i < MAX_RESERVATIONS"
      unfolding cnt by simp_all
    then have "i \<noteq> e" "?n \<le> i" by (auto split: if_splits)
    then show "pid (reservations ?d1 ! i) = 0" using nth [OF i(2)] tail i(2) by simp
  next
    fix a b
    assume h: "a < MAX_RESERVATIONS \<and> b < MAX_RESERVATIONS \<and>
       pid (reservations ?d1 ! a) = pid (reservations ?d1 ! b) \<and>
       pid (reservations ?d1 ! a) \<noteq> 0"
    then have a: "a < MAX_RESERVATIONS" and b: "b < MAX_RESERVATIONS" by simp_all
    have eq: "(if a = e then p else pid (reservations d ! a)) =
        (if b = e then p else pid (reservations d ! b))"
      using h unfolding nth [OF a] nth [OF b] by blast
    have nz: "(if a = e then p else pid (reservations d ! a)) \<noteq> 0"
      using h unfolding nth [OF a] by blast
    show "a = b"
    proof (cases "a = e")
      case True
      with nz have p: "p \<noteq> 0" by simp
      show ?thesis
      proof (rule ccontr)
        assume ne: "a \<noteq> b"
        with True have "b \<noteq> e" by simp
        with eq True have "pid (reservations d ! b) = p" by simp
        with other [OF b \<open>b \<noteq> e\<close> p] show False by simp
      qed
    next
      case False
      show ?thesis
      proof (cases "b = e")
        case True
        with eq False have pa: "pid (reservations d ! a) = p" by simp
        with nz False have "p \<noteq> 0" by simp
        with other [OF a False] pa show ?thesis by simp
      next
        case bF: False
        with False eq nz show ?thesis using dist [OF a b] by simp
      qed
    qed
  qed
qed

lemma reserve_in_region_inv:
  assumes inv: "table_inv d"
  shows "table_inv (fst (reserve_in_region d p mb))"
  using inv
proof (cases rule: reserve_in_region_cases [where p=p and mb=mb])
  case (found k)
  have "k < MAX_RESERVATIONS" using found(1) inv by (simp add: table_inv_def)
  then show ?thesis using found(3) apply_reservation_inv [OF inv] by simp
next
  case unchanged
  then show ?thesis using inv by simp
next
  case (fresh e)
  show ?thesis
    unfolding fresh(5)
    by (rule apply_reservation_inv [OF new_slot_inv [OF inv fresh(3,4) fresh(1)] fresh(3)])
qed

lemma release_in_region:
  assumes inv: "table_inv d" and p: "p \<noteq> 0" and mb: "sint mb \<le> 0"
  shows "(\<forall>i < MAX_RESERVATIONS. pid (reservations (fst (reserve_in_region d p mb)) ! i) \<noteq> p) \<and>
         (\<forall>i < MAX_RESERVATIONS. pid (reservations d ! i) = p \<longrightarrow>
            pid (reservations (fst (reserve_in_region d p mb)) ! i) = 0 \<and>
            reserved_mb (reservations (fst (reserve_in_region d p mb)) ! i) = 0 \<and>
            total_reserved_mb (fst (reserve_in_region d p mb)) =
              total_reserved_mb d - reserved_mb (reservations d ! i))"
proof -
  let ?n = "unat (reservation_count d)"
  from inv have len: "length (reservations d) = MAX_RESERVATIONS" and n: "?n \<le> MAX_RESERVATIONS"
    and tail: "\<And>i. ?n \<le> i \<Longrightarrow> i < MAX_RESERVATIONS \<Longrightarrow> pid (reservations d ! i) = 0"
    and dist: "\<And>i j. i < MAX_RESERVATIONS \<Longrightarrow> j < MAX_RESERVATIONS \<Longrightarrow>
        pid (reservations d ! i) = pid (reservations d ! j) \<Longrightarrow>
        pid (reservations d ! i) \<noteq> 0 \<Longrightarrow> i = j"
    unfolding table_inv_def by blast+
  have nowhere: "pid (reservations d ! i) \<noteq> p"
    if "\<And>j. j < ?n \<Longrightarrow> pid (reservations d ! j) \<noteq> p" and "i < MAX_RESERVATIONS" for i
  proof (cases "i < ?n")
    case True
    then show ?thesis by (rule that(1))
  next
    case False
    then have "pid (reservations d ! i) = 0" using tail that(2) by simp
    with p show ?thesis by simp
  qed
  from inv show ?thesis
  proof (cases rule: reserve_in_region_cases [where p=p and mb=mb])
    case (found k)
    have k: "k < MAX_RESERVATIONS" using found(1) n by simp
    then have kl: "k < length (reservations d)" using len by simp
    note fr = apply_reservation_frame [OF kl, where p=p and mb=mb]
    have only: "i = k" if "i < MAX_RESERVATIONS" "pid (reservations d ! i) = p" for i
      using dist [OF that(1) k] that(2) found(2) p by simp
    have tot: "total_reserved_mb (fst (apply_reservation d k p mb)) =
        total_reserved_mb d - reserved_mb (reservations d ! k)"
      using mb by (simp add: apply_reservation_def Let_def)
    show ?thesis
      unfolding found(3)
    proof (intro conjI allI impI)
      fix i assume i: "i < MAX_RESERVATIONS"
      show "pid (reservations (fst (apply_reservation d k p mb)) ! i) \<noteq> p"
      proof (cases "i = k")
        case True
        then show ?thesis using fr(5) mb found(2) p by simp
      next
        case False
        then show ?thesis using fr(4) [OF False] only [OF i] by auto
      qed
    next
      fix i assume "i < MAX_RESERVATIONS" "pid (reservations d ! i) = p"
      then have "i = k" by (rule only)
      then show "pid (reservations (fst (apply_reservation d k p mb)) ! i) = 0"
        "reserved_mb (reservations (fst (apply_reservation d k p mb)) ! i) = 0"
        "total_reserved_mb (fst (apply_reservation d k p mb)) =
           total_reserved_mb d - reserved_mb (reservations d ! i)"
        using fr(5,6) mb found(2) tot by simp_all
    qed
  next
    case unchanged
    then show ?thesis using nowhere by simp
  next
    case (fresh e)
    let ?d1 = "d\<lparr>reservations := (reservations d)[e := \<lparr>pid = p, reserved_mb = 0\<rparr>],
             reservation_count :=
               (if sint (reservation_count d) \<le> int e then of_nat (e + 1)
                else reservation_count d)\<rparr>"
    have el: "e < length (reservations ?d1)" using fresh(3) len by simp
    note fr = apply_reservation_frame [OF el, where p=p and mb=mb]
    have "pid (reservations (fst (apply_reservation ?d1 e p mb)) ! i) \<noteq> p"
      if i: "i < MAX_RESERVATIONS" for i
    proof (cases "i = e")
      case True
      then show ?thesis using fr(5) mb p fresh(3) len by simp
    next
      case False
      then show ?thesis using fr(4) [OF False] nowhere [OF fresh(1) i] by simp
    qed
    then show ?thesis unfolding fresh(5) using nowhere [OF fresh(1)] by blast
  qed
qed

lemma ensure_mapped: "shared_data g = Mapped d \<Longrightarrow> ensure_shared_memory g os = (g, False)"
  by (simp add: ensure_shared_memory_def)

lemma reserve_memory_mb_mapped:
  "shared_data g = Mapped d \<Longrightarrow>
   reserve_memory_mb g os p mb =
     Inr (g\<lparr>shared_data := Mapped (fst (reserve_in_region d p mb))\<rparr>,
          snd (reserve_in_region d p mb))"
  by (simp add: reserve_memory_mb_def ensure_mapped split: prod.splits)

section \<open>Shared accounting region: claims\<close>

lemma region_after_admission_inv: "table_inv region_after_admission"
  unfolding region_after_admission_def
  by (rule reserve_in_region_inv [OF zeroed_region_inv])

text \<open>
  C7. In a well-formed table (every table reached from the zeroed region by calls of
  \<open>reserve_memory_mb\<close>), after \<open>reserve_memory_mb (p, mb)\<close> with \<open>mb \<le> 0\<close> for a
  process id \<open>p\<close> other than 0 no slot has pid \<open>p\<close>; the slot that held \<open>p\<close> has pid 0
  and \<open>reserved_mb\<close> 0, its amount was taken off \<open>total_reserved_mb\<close>, and the table is
  still well-formed.
\<close>

theorem release_frees_slot:
  assumes "shared_data g = Mapped d" and "table_inv d" and "p \<noteq> 0" and "sint mb \<le> 0"
  shows "\<exists>g' rc d'. reserve_memory_mb g os p mb = Inr (g', rc) \<and>
      shared_data g' = Mapped d' \<and> table_inv d' \<and>
      (\<forall>i < MAX_RESERVATIONS. pid (reservations d' ! i) \<noteq> p) \<and>
      (\<forall>i < MAX_RESERVATIONS. pid (reservations d ! i) = p \<longrightarrow>
         pid (reservations d' ! i) = 0 \<and> reserved_mb (reservations d' ! i) = 0 \<and>
         total_reserved_mb d' = total_reserved_mb d - reserved_mb (reservations d ! i))"
  using reserve_memory_mb_mapped [OF assms(1), of os p mb]
    release_in_region [OF assms(2,3,4)] reserve_in_region_inv [OF assms(2), of p mb]
  by simp

theorem release_frees_slot_witness:
  "shared_data (top_level_globals\<lparr>shared_data := Mapped region_after_admission\<rparr>)
     = Mapped region_after_admission \<and>
   table_inv region_after_admission \<and> (4000 :: pid_t) \<noteq> 0 \<and> sint (0 :: clong) \<le> 0 \<and>
   pid (reservations region_after_admission ! 0) = 4000 \<and>
   (\<exists>g' rc d'.
      reserve_memory_mb (top_level_globals\<lparr>shared_data := Mapped region_after_admission\<rparr>)
        Open_failed 4000 0 = Inr (g', rc) \<and>
      shared_data g' = Mapped d' \<and> table_inv d' \<and>
      (\<forall>i < MAX_RESERVATIONS. pid (reservations d' ! i) \<noteq> 4000) \<and>
      (\<forall>i < MAX_RESERVATIONS. pid (reservations region_after_admission ! i) = 4000 \<longrightarrow>
         pid (reservations d' ! i) = 0 \<and> reserved_mb (reservations d' ! i) = 0 \<and>
         total_reserved_mb d' =
           total_reserved_mb region_after_admission
             - reserved_mb (reservations region_after_admission ! i)))"
proof -
  have a: "shared_data (top_level_globals\<lparr>shared_data := Mapped region_after_admission\<rparr>)
     = Mapped region_after_admission" by simp
  have b: "(4000 :: pid_t) \<noteq> 0" by simp
  have c: "sint (0 :: clong) \<le> 0" by simp
  have e: "pid (reservations region_after_admission ! 0) = 4000" by code_simp
  show ?thesis
    using release_frees_slot [OF a region_after_admission_inv b c, of Open_failed]
      a region_after_admission_inv b c e
    by blast
qed

text \<open>
  C4 at its failing input. The release branch subtracts the slot's amount from
  \<open>total_reserved_mb\<close> without the guard the overwrite branch has. With a total of 0
  against a reservation of 200 the total becomes \<open>2 ^ 64 - 200\<close>; and after three
  reservations that sum to \<open>2 ^ 64\<close>, made by calls on the zeroed region, releasing the
  reservation of 2 turns the total 0 into \<open>2 ^ 64 - 2\<close>.
\<close>

theorem release_wraps_below_zero:
  "total_reserved_mb desynced_region = 0 \<and>
   reserved_for desynced_region 5000 = 200 \<and>
   total_reserved_mb (fst (reserve_in_region desynced_region 5000 0)) = 18446744073709551416 \<and>
   total_reserved_mb three_reservations = 0 \<and>
   reserved_for three_reservations 3 = 2 \<and>
   total_reserved_mb (fst (reserve_in_region three_reservations 3 0)) = 18446744073709551614"
  by code_simp

text \<open>
  The overwrite branch, for comparison: lowering a reservation from \<open>old\<close> to \<open>mb\<close>
  takes \<open>old - mb\<close> off the total and stops at 0.
\<close>

lemma lowering_saturates:
  assumes "i < length (reservations d)" and "0 < sint mb"
    and "mb < reserved_mb (reservations d ! i)"
  shows "unat (total_reserved_mb (fst (apply_reservation d i p mb))) =
         unat (total_reserved_mb d) - (unat (reserved_mb (reservations d ! i)) - unat mb)"
proof -
  let ?old = "reserved_mb (reservations d ! i)"
  have le: "mb \<le> ?old" using assms(3) by simp
  have nle: "\<not> ?old \<le> mb" using assms(3) by simp
  have pos: "\<not> sint mb \<le> 0" using assms(2) by simp
  have diff: "unat (?old - mb) = unat ?old - unat mb" using le by (simp add: unat_sub)
  show ?thesis
  proof (cases "total_reserved_mb d < ?old - mb")
    case True
    then have "unat (total_reserved_mb d) < unat ?old - unat mb"
      using diff by (simp add: word_less_nat_alt)
    then show ?thesis using assms(1) True nle pos
      by (simp add: apply_reservation_def Let_def)
  next
    case False
    then have "?old - mb \<le> total_reserved_mb d" by simp
    then have "unat (total_reserved_mb d - (?old - mb)) =
        unat (total_reserved_mb d) - unat (?old - mb)" by (simp add: unat_sub)
    then show ?thesis using assms(1) False diff nle pos
      by (simp add: apply_reservation_def Let_def)
  qed
qed

section \<open>Admission gate: claims\<close>

lemma reserve_positive:
  assumes inv: "table_inv d" and mb: "0 < sint mb"
    and room: "(\<exists>i < unat (reservation_count d). pid (reservations d ! i) = p) \<or>
               (\<exists>i < MAX_RESERVATIONS. pid (reservations d ! i) = 0)"
  shows "\<exists>i < MAX_RESERVATIONS.
           pid (reservations (fst (reserve_in_region d p mb)) ! i) = p \<and>
           reserved_mb (reservations (fst (reserve_in_region d p mb)) ! i) = mb"
proof -
  from inv have len: "length (reservations d) = MAX_RESERVATIONS"
    and n: "unat (reservation_count d) \<le> MAX_RESERVATIONS"
    unfolding table_inv_def by blast+
  have pos: "\<not> sint mb \<le> 0" using mb by simp
  have nz: "mb \<noteq> 0" using mb by auto
  from inv show ?thesis
  proof (cases rule: reserve_in_region_cases [where p=p and mb=mb])
    case (found k)
    have k: "k < MAX_RESERVATIONS" using found(1) n by simp
    then have kl: "k < length (reservations d)" using len by simp
    note fr = apply_reservation_frame [OF kl, where p=p and mb=mb]
    show ?thesis unfolding found(3) using fr(5,6) pos found(2) k by auto
  next
    case unchanged
    with room nz show ?thesis by blast
  next
    case (fresh e)
    let ?d1 = "d\<lparr>reservations := (reservations d)[e := \<lparr>pid = p, reserved_mb = 0\<rparr>],
             reservation_count :=
               (if sint (reservation_count d) \<le> int e then of_nat (e + 1)
                else reservation_count d)\<rparr>"
    have el: "e < length (reservations ?d1)" using fresh(3) len by simp
    note fr = apply_reservation_frame [OF el, where p=p and mb=mb]
    have "pid (reservations ?d1 ! e) = p" using fresh(3) len by simp
    then show ?thesis unfolding fresh(5) using fr(5,6) pos fresh(3) by auto
  qed
qed

lemma reserve_full_table:
  assumes inv: "table_inv d"
    and full: "\<forall>i < MAX_RESERVATIONS. pid (reservations d ! i) \<noteq> p \<and> pid (reservations d ! i) \<noteq> 0"
  shows "reserve_in_region d p mb = (d, 0)"
  using inv
proof (cases rule: reserve_in_region_cases [where p=p and mb=mb])
  case (found k)
  moreover have "k < MAX_RESERVATIONS" using found(1) inv by (simp add: table_inv_def)
  ultimately show ?thesis using full by blast
next
  case unchanged
  then show ?thesis by simp
next
  case (fresh e)
  then show ?thesis using full by blast
qed

lemma get_imminent_mapped:
  "shared_data g = Mapped d \<Longrightarrow>
   get_imminent_memory_mb g os = Inr (g, total_reserved_mb d + unused_peaks_mb d)"
  by (simp add: get_imminent_memory_mb_def ensure_mapped)

lemma may_spawn_mapped:
  assumes "shared_data g = Mapped d"
  shows "may_spawn st g os free caller hint =
    (if admits free (total_reserved_mb d + unused_peaks_mb d) (peak_from_profile st hint)
     then Inr (g\<lparr>shared_data :=
                   Mapped (fst (reserve_in_region d caller (peak_from_profile st hint)))\<rparr>, Go)
     else Inr (g, Wait))"
  by (simp add: may_spawn_def get_imminent_mapped [OF assms] reserve_memory_mb_mapped [OF assms]
      Let_def)

lemma record_eq_self: "shared_data g = Mapped d \<Longrightarrow> g\<lparr>shared_data := Mapped d\<rparr> = g"
  by simp

text \<open>
  C2, as amended. With the region mapped, the gate returns go exactly when the required
  peak is zero or at most \<open>saturating_sub (free, imminent)\<close>, where \<open>imminent\<close> is
  \<open>total_reserved_mb + unused_peaks_mb\<close> (a 64-bit sum) read from the region, and always
  when the free memory is unknown; on wait nothing is written. On go with a required
  peak that is positive as a \<open>long\<close>, a slot holds the caller's pid with the required
  amount afterwards, provided the caller already owns a slot or a free slot exists. When
  every slot is owned by another process the gate still returns go and writes nothing.
\<close>

theorem admission_gate:
  assumes m: "shared_data g = Mapped d"
  shows "(\<exists>g'. may_spawn st g os (Some f) caller hint =
            Inr (g', if peak_from_profile st hint = 0 \<or>
                        peak_from_profile st hint
                          \<le> saturating_sub f (total_reserved_mb d + unused_peaks_mb d)
                     then Go else Wait)) \<and>
         (\<exists>g'. may_spawn st g os None caller hint = Inr (g', Go)) \<and>
         (may_spawn st g os free caller hint = Inr (g', Wait) \<longrightarrow> g' = g) \<and>
         (may_spawn st g os free caller hint = Inr (g', Go) \<and> table_inv d \<and>
          0 < sint (peak_from_profile st hint) \<and>
          ((\<exists>i < unat (reservation_count d). pid (reservations d ! i) = caller) \<or>
           (\<exists>i < MAX_RESERVATIONS. pid (reservations d ! i) = 0)) \<longrightarrow>
            (\<exists>d' i. shared_data g' = Mapped d' \<and> i < MAX_RESERVATIONS \<and>
               pid (reservations d' ! i) = caller \<and>
               reserved_mb (reservations d' ! i) = peak_from_profile st hint)) \<and>
         (may_spawn st g os free caller hint = Inr (g', Go) \<and> table_inv d \<and>
          (\<forall>i < MAX_RESERVATIONS.
              pid (reservations d ! i) \<noteq> caller \<and> pid (reservations d ! i) \<noteq> 0) \<longrightarrow>
            g' = g)"
proof (intro conjI impI)
  show "\<exists>g'. may_spawn st g os (Some f) caller hint =
            Inr (g', if peak_from_profile st hint = 0 \<or>
                        peak_from_profile st hint
                          \<le> saturating_sub f (total_reserved_mb d + unused_peaks_mb d)
                     then Go else Wait)"
    by (auto simp: may_spawn_mapped [OF m] admits_def)
  show "\<exists>g'. may_spawn st g os None caller hint = Inr (g', Go)"
    by (simp add: may_spawn_mapped [OF m] admits_def)
  show "g' = g" if "may_spawn st g os free caller hint = Inr (g', Wait)"
    using that by (auto simp: may_spawn_mapped [OF m] split: if_splits)
next
  assume a: "may_spawn st g os free caller hint = Inr (g', Go) \<and> table_inv d \<and>
          0 < sint (peak_from_profile st hint) \<and>
          ((\<exists>i < unat (reservation_count d). pid (reservations d ! i) = caller) \<or>
           (\<exists>i < MAX_RESERVATIONS. pid (reservations d ! i) = 0))"
  then have g': "shared_data g' =
      Mapped (fst (reserve_in_region d caller (peak_from_profile st hint)))"
    by (auto simp: may_spawn_mapped [OF m] split: if_splits)
  from a have "\<exists>i < MAX_RESERVATIONS.
      pid (reservations (fst (reserve_in_region d caller (peak_from_profile st hint))) ! i) = caller \<and>
      reserved_mb (reservations (fst (reserve_in_region d caller (peak_from_profile st hint))) ! i)
        = peak_from_profile st hint"
    by (intro reserve_positive) blast+
  with g' show "\<exists>d' i. shared_data g' = Mapped d' \<and> i < MAX_RESERVATIONS \<and>
               pid (reservations d' ! i) = caller \<and>
               reserved_mb (reservations d' ! i) = peak_from_profile st hint"
    by blast
next
  assume a: "may_spawn st g os free caller hint = Inr (g', Go) \<and> table_inv d \<and>
          (\<forall>i < MAX_RESERVATIONS.
              pid (reservations d ! i) \<noteq> caller \<and> pid (reservations d ! i) \<noteq> 0)"
  then have "reserve_in_region d caller (peak_from_profile st hint) = (d, 0)"
    by (intro reserve_full_table) blast+
  with a show "g' = g"
    using record_eq_self [OF m] by (auto simp: may_spawn_mapped [OF m] split: if_splits)
qed


lemma full_region_inv: "table_inv full_region"
proof -
  have nth: "\<And>i. i < 64 \<Longrightarrow> pid (reservations full_region ! i) = of_nat (Suc i)"
    by (simp add: full_region_def del: upt_Suc)
  have inj: "\<And>i j. i < 64 \<Longrightarrow> j < 64 \<Longrightarrow> (of_nat (Suc i) :: pid_t) = of_nat (Suc j) \<Longrightarrow> i = j"
  proof -
    fix i j :: nat assume i: "i < 64" and j: "j < 64"
      and eq: "(of_nat (Suc i) :: pid_t) = of_nat (Suc j)"
    have "unat (of_nat (Suc i) :: pid_t) = Suc i"
      by (rule of_nat_inverse [OF refl]) (use i in simp)
    moreover have "unat (of_nat (Suc j) :: pid_t) = Suc j"
      by (rule of_nat_inverse [OF refl]) (use j in simp)
    ultimately show "i = j" using eq by (metis nat.inject)
  qed
  show ?thesis
    unfolding table_inv_def MAX_RESERVATIONS_def
  proof (intro conjI allI impI)
    show "length (reservations full_region) = 64" by (simp add: full_region_def)
    show "unat (reservation_count full_region) \<le> 64" by (simp add: full_region_def)
  next
    fix i assume "unat (reservation_count full_region) \<le> i \<and> i < 64"
    then have False by (auto simp: full_region_def)
    then show "pid (reservations full_region ! i) = 0" ..
  next
    fix i j
    assume "i < 64 \<and> j < 64 \<and>
      pid (reservations full_region ! i) = pid (reservations full_region ! j) \<and>
      pid (reservations full_region ! i) \<noteq> 0"
    then show "i = j" using nth inj by metis
  qed
qed

theorem admission_gate_witness:
  "shared_data (top_level_globals\<lparr>shared_data := Mapped zeroed_region\<rparr>) = Mapped zeroed_region \<and>
   (\<exists>g'. may_spawn example_store (top_level_globals\<lparr>shared_data := Mapped zeroed_region\<rparr>)
            Open_failed (Some 8192) 4000 (Some ''src/d.cpp'') = Inr (g', Go)) \<and>
   (\<exists>g'. may_spawn example_store (top_level_globals\<lparr>shared_data := Mapped zeroed_region\<rparr>)
            Open_failed (Some 300) 4000 (Some ''src/d.cpp'') = Inr (g', Wait)) \<and>
   table_inv zeroed_region \<and> 0 < sint (peak_from_profile example_store (Some ''src/d.cpp'')) \<and>
   pid (reservations zeroed_region ! 0) = 0 \<and>
   (\<exists>d' i. i < MAX_RESERVATIONS \<and>
      may_spawn example_store (top_level_globals\<lparr>shared_data := Mapped zeroed_region\<rparr>)
        Open_failed (Some 8192) 4000 (Some ''src/d.cpp'')
        = Inr (top_level_globals\<lparr>shared_data := Mapped d'\<rparr>, Go) \<and>
      pid (reservations d' ! i) = 4000 \<and> reserved_mb (reservations d' ! i) = 900)"
proof -
  let ?g = "top_level_globals\<lparr>shared_data := Mapped zeroed_region\<rparr>"
  let ?g' = "top_level_globals\<lparr>shared_data :=
      Mapped (fst (reserve_in_region zeroed_region 4000 900))\<rparr>"
  have m: "shared_data ?g = Mapped zeroed_region" by simp
  have pk: "peak_from_profile example_store (Some ''src/d.cpp'') = 900" by code_simp
  have s1: "saturating_sub 8192 (total_reserved_mb zeroed_region + unused_peaks_mb zeroed_region)
      = 8192" by code_simp
  have s2: "saturating_sub 300 (total_reserved_mb zeroed_region + unused_peaks_mb zeroed_region)
      = 300" by code_simp
  have go: "may_spawn example_store ?g Open_failed (Some 8192) 4000 (Some ''src/d.cpp'')
      = Inr (?g', Go)" by code_simp
  have free0: "pid (reservations zeroed_region ! 0) = 0" by code_simp
  have room: "(\<exists>i < unat (reservation_count zeroed_region).
                  pid (reservations zeroed_region ! i) = 4000) \<or>
              (\<exists>i < MAX_RESERVATIONS. pid (reservations zeroed_region ! i) = 0)"
    using free0 by (auto simp: MAX_RESERVATIONS_def)
  have pos: "0 < sint (peak_from_profile example_store (Some ''src/d.cpp''))"
    unfolding pk by simp
  note gate = admission_gate [OF m, where st=example_store and os=Open_failed and caller=4000
      and hint="Some ''src/d.cpp''" and free="Some 8192" and g'="?g'"]
  have a: "\<exists>g'. may_spawn example_store ?g Open_failed (Some 8192) 4000 (Some ''src/d.cpp'')
      = Inr (g', Go)"
    using gate [where f=8192, THEN conjunct1] by (simp add: pk s1)
  have b: "\<exists>g'. may_spawn example_store ?g Open_failed (Some 300) 4000 (Some ''src/d.cpp'')
      = Inr (g', Wait)"
    using gate [where f=300, THEN conjunct1] by (simp add: pk s2)
  have "\<exists>d' i. shared_data ?g' = Mapped d' \<and> i < MAX_RESERVATIONS \<and>
      pid (reservations d' ! i) = 4000 \<and>
      reserved_mb (reservations d' ! i) = peak_from_profile example_store (Some ''src/d.cpp'')"
    using gate [where f=8192, THEN conjunct2, THEN conjunct2, THEN conjunct2, THEN conjunct1]
      go zeroed_region_inv pos room by blast
  then have c: "\<exists>d' i. i < MAX_RESERVATIONS \<and>
      may_spawn example_store ?g Open_failed (Some 8192) 4000 (Some ''src/d.cpp'')
        = Inr (top_level_globals\<lparr>shared_data := Mapped d'\<rparr>, Go) \<and>
      pid (reservations d' ! i) = 4000 \<and> reserved_mb (reservations d' ! i) = 900"
    unfolding pk go by auto
  show ?thesis using m a b c zeroed_region_inv pos free0 by blast
qed

text \<open>
  C2, as stated, fails in its last part: with the 64 slots held by other processes (a
  well-formed table, by \<open>full_region_inv\<close>) the
  gate admits a spawn that needs 900 MiB of 8192 free and leaves the region as it was;
  nothing is reserved under the caller 4000.
\<close>

theorem admission_without_reservation_counterexample:
  "may_spawn example_store (top_level_globals\<lparr>shared_data := Mapped full_region\<rparr>)
     Open_failed (Some 8192) 4000 (Some ''src/d.cpp'')
     = Inr (top_level_globals\<lparr>shared_data := Mapped full_region\<rparr>, Go) \<and>
   peak_from_profile example_store (Some ''src/d.cpp'') = 900 \<and>
   find_pid (reservations full_region) 4000 0 MAX_RESERVATIONS = None \<and>
   reserved_for full_region 4000 = 0"
  by code_simp

section \<open>Classifier: arguments joined by spaces\<close>

text \<open>The text \<open>a @ ' ' # rest\<close> with no space in \<open>a\<close>, position by position.\<close>

lemma strncmp_eq_left:
  assumes lit: "lit \<in> set source_suffixes" and i: "i \<le> length a"
  shows "strncmp_eq (a @ CHR '' '' # rest) i lit \<longleftrightarrow> strncmp_eq a i lit"
proof (cases "length lit \<le> length a - i")
  case True
  then show ?thesis using i by (simp add: strncmp_eq_def)
next
  case False
  then have short: "length (take (length lit) (drop i a)) < length lit" by simp
  have na: "\<not> strncmp_eq a i lit"
    using short unfolding strncmp_eq_def by (metis less_irrefl)
  have "take (length lit) (drop i (a @ CHR '' '' # rest)) =
      drop i a @ take (length lit - (length a - i)) (CHR '' '' # rest)"
    using i False by simp
  moreover have "0 < length lit - (length a - i)" using False by simp
  ultimately have "CHR '' '' \<in> set (take (length lit) (drop i (a @ CHR '' '' # rest)))"
    by (cases "length lit - (length a - i)") auto
  moreover have "CHR '' '' \<notin> set lit"
    using source_suffixes_plain [OF lit] by (auto simp: is_space_or_quote_def)
  ultimately have "\<not> strncmp_eq (a @ CHR '' '' # rest) i lit"
    unfolding strncmp_eq_def by metis
  with na show ?thesis by simp
qed

lemma strncmp_eq_bound: "lit \<noteq> [] \<Longrightarrow> strncmp_eq t i lit \<Longrightarrow> i + length lit \<le> length t"
  unfolding strncmp_eq_def by (rule take_drop_eq_bound)

lemma candidate_end_left:
  assumes i: "i < length a"
  shows "candidate_end (a @ CHR '' '' # rest) i = candidate_end a i"
proof -
  let ?t = "a @ CHR '' '' # rest"
  have le: "i \<le> length a" using i by simp
  have s1: "strncmp_eq ?t i ''.cpp'' = strncmp_eq a i ''.cpp''"
    by (rule strncmp_eq_left [OF _ le]) (simp add: source_suffixes_def)
  have s2: "strncmp_eq ?t i ''.cc'' = strncmp_eq a i ''.cc''"
    by (rule strncmp_eq_left [OF _ le]) (simp add: source_suffixes_def)
  have s3: "strncmp_eq ?t i ''.c'' = strncmp_eq a i ''.c''"
    by (rule strncmp_eq_left [OF _ le]) (simp add: source_suffixes_def)
  have c: "(length ?t \<le> i + 2 \<or> ?t ! (i + 2) = CHR '' '') =
           (length a \<le> i + 2 \<or> a ! (i + 2) = CHR '' '')" if "strncmp_eq a i ''.c''"
  proof -
    have "i + 2 \<le> length a" using strncmp_eq_bound [OF _ that] by simp
    then show ?thesis by (cases "i + 2 = length a") (auto simp: nth_append)
  qed
  show ?thesis unfolding candidate_end_def s1 s2 s3 using c by auto
qed

lemma candidate_end_sep:
  "candidate_end (a @ CHR '' '' # rest) (length a) = None"
  by (simp add: candidate_end_def strncmp_eq_def)

lemma candidate_end_right:
  "candidate_end (a @ CHR '' '' # rest) (Suc (length a + k)) =
     map_option (\<lambda>e. Suc (length a + e)) (candidate_end rest k)"
proof -
  let ?t = "a @ CHR '' '' # rest"
  have d: "\<And>lit. strncmp_eq ?t (Suc (length a + k)) lit = strncmp_eq rest k lit"
    by (simp add: strncmp_eq_def)
  have c: "(length ?t \<le> Suc (length a + k) + 2 \<or> ?t ! (Suc (length a + k) + 2) = CHR '' '') =
           (length rest \<le> k + 2 \<or> rest ! (k + 2) = CHR '' '')"
    by (auto simp: nth_append)
  show ?thesis unfolding candidate_end_def d using c by auto
qed

lemma backtrack_left: "i \<le> length a \<Longrightarrow> backtrack stop (a @ x) i = backtrack stop a i"
  by (induction i) (auto simp: nth_append)

lemma backtrack_right:
  "stop (CHR '' '') \<Longrightarrow>
   backtrack stop (a @ CHR '' '' # rest) (Suc (length a + k)) =
     Suc (length a + backtrack stop rest k)"
  by (induction k) (auto simp: nth_append)

lemma substr_left: "e < length a \<Longrightarrow> substr (a @ x) s e = substr a s e"
  by (simp add: substr_def)

lemma substr_right:
  "substr (a @ CHR '' '' # rest) (Suc (length a + s)) (Suc (length a + e)) = substr rest s e"
  by (simp add: substr_def Suc_diff_le)

lemma candidate_end_lt: "candidate_end t i = Some e \<Longrightarrow> e < length t \<and> i \<le> e"
proof -
  assume a: "candidate_end t i = Some e"
  from candidate_end_substr [OF a] obtain ext where ext: "ext \<in> set source_suffixes"
    and e: "e + 1 = i + length ext" and lt: "e < length t" by blast
  have "ext \<noteq> []" using ext by (rule source_suffixes_nonempty)
  with e lt show ?thesis by (cases ext) auto
qed

lemma qualifies_left:
  assumes i: "i < length a"
  shows "qualifies (a @ CHR '' '' # rest) i = qualifies a i"
proof (cases "candidate_end a i")
  case None
  then show ?thesis by (simp add: qualifies_def candidate_end_left [OF i])
next
  case (Some e)
  from candidate_end_lt [OF Some] have e: "e < length a" by simp
  show ?thesis
    using Some i e
    by (simp add: qualifies_def candidate_end_left [OF i] has_slash_def backtrack_left
        substr_left)
qed

lemma qualifies_sep: "\<not> qualifies (a @ CHR '' '' # rest) (length a)"
  by (simp add: qualifies_def candidate_end_sep)

lemma qualifies_right:
  "qualifies (a @ CHR '' '' # rest) (Suc (length a + k)) = qualifies rest k"
proof -
  have sp: "is_space (CHR '' '')" by (simp add: is_space_def)
  note bt = backtrack_right [where stop=is_space, OF sp]
  show ?thesis
    by (cases "candidate_end rest k")
       (simp_all add: qualifies_def candidate_end_right has_slash_def bt substr_right
          del: backtrack.simps)
qed

lemma upt_split3:
  "[0..<Suc (a + r)] = [0..<a] @ a # map (\<lambda>k. Suc (a + k)) [0..<r]"
proof -
  have "[0..<a + Suc r] = [0..<a] @ [a..<a + Suc r]"
    by (metis le_add1 upt_add_eq_append add_0)
  moreover have "[a..<a + Suc r] = a # [Suc a..<Suc a + r]" by (simp add: upt_conv_Cons)
  moreover have "[Suc a..<Suc a + r] = map (\<lambda>k. Suc (a + k)) [0..<r]"
    using map_add_upt [of "Suc a" r] by (simp add: add.commute)
  ultimately show ?thesis by simp
qed

lemma qualifying_split:
  "filter (qualifies (a @ CHR '' '' # rest)) [0..<Suc (length a + length rest)] =
     filter (qualifies a) [0..<length a]
     @ map (\<lambda>k. Suc (length a + k)) (filter (qualifies rest) [0..<length rest])"
proof -
  let ?t = "a @ CHR '' '' # rest"
  have f1: "filter (qualifies ?t) [0..<length a] = filter (qualifies a) [0..<length a]"
    by (rule filter_cong) (auto simp: qualifies_left)
  have f3: "filter (qualifies ?t) (map (\<lambda>k. Suc (length a + k)) [0..<length rest]) =
      map (\<lambda>k. Suc (length a + k)) (filter (qualifies rest) [0..<length rest])"
    by (simp add: filter_map comp_def qualifies_right)
  show ?thesis
    unfolding upt_split3 filter_append filter.simps f1 f3 using qualifies_sep [of a rest]
    by simp
qed

text \<open>With a qualifying position in \<open>rest\<close> the answer comes from \<open>rest\<close>, else from \<open>a\<close>.\<close>

lemma extract_at_left: "e < length a \<Longrightarrow> extract_at (a @ CHR '' '' # rest) e = extract_at a e"
  by (simp add: extract_at_def backtrack_left substr_left Let_def)

lemma extract_at_right:
  "extract_at (a @ CHR '' '' # rest) (Suc (length a + e)) = extract_at rest e"
proof -
  have q: "is_space_or_quote (CHR '' '')" by (simp add: is_space_or_quote_def)
  note bt = backtrack_right [where stop=is_space_or_quote, OF q]
  have b: "backtrack is_space_or_quote rest e \<le> e" by (rule backtrack_le)
  show ?thesis
    unfolding extract_at_def Let_def bt substr_right using b by simp
qed

lemma classify_last_occurrence_alt:
  "classify_last_occurrence t (length t) =
    (case rev (filter (qualifies t) [0..<length t]) of
       [] \<Rightarrow> None
     | i # _ \<Rightarrow> (case candidate_end t i of None \<Rightarrow> None | Some e \<Rightarrow> extract_at t e))"
  by (auto simp: classify_last_occurrence_def extract_at_def split: list.splits option.splits)

lemma classify_cons:
  "classify_last_occurrence (a @ CHR '' '' # rest) (length (a @ CHR '' '' # rest)) =
     (if filter (qualifies rest) [0..<length rest] = []
      then classify_last_occurrence a (length a)
      else classify_last_occurrence rest (length rest))"
proof -
  let ?t = "a @ CHR '' '' # rest"
  have l: "length ?t = Suc (length a + length rest)" by simp
  have split: "rev (filter (qualifies ?t) [0..<length ?t]) =
      rev (map (\<lambda>k. Suc (length a + k)) (filter (qualifies rest) [0..<length rest]))
      @ rev (filter (qualifies a) [0..<length a])"
    unfolding l qualifying_split by simp
  show ?thesis
  proof (cases "rev (filter (qualifies rest) [0..<length rest])")
    case Nil
    then have empty: "filter (qualifies rest) [0..<length rest] = []" by simp
    show ?thesis
    proof (cases "rev (filter (qualifies a) [0..<length a])")
      case N2: Nil
      show ?thesis
        unfolding classify_last_occurrence_alt split using empty N2 by simp
    next
      case (Cons i js)
      then have "i \<in> set (filter (qualifies a) [0..<length a])"
        by (metis list.set_intros(1) set_rev)
      then have i: "i < length a" by simp
      have "(case candidate_end ?t i of None \<Rightarrow> None | Some e \<Rightarrow> extract_at ?t e) =
            (case candidate_end a i of None \<Rightarrow> None | Some e \<Rightarrow> extract_at a e)"
      proof (cases "candidate_end a i")
        case None
        then show ?thesis by (simp add: candidate_end_left [OF i])
      next
        case (Some e)
        from candidate_end_lt [OF Some] have "e < length a" by simp
        then show ?thesis using Some by (simp add: candidate_end_left [OF i] extract_at_left)
      qed
      then show ?thesis
        unfolding classify_last_occurrence_alt split using empty Cons by simp
    qed
  next
    case (Cons k ks)
    then have ne: "filter (qualifies rest) [0..<length rest] \<noteq> []" by auto
    have hd: "rev (filter (qualifies ?t) [0..<length ?t]) =
        Suc (length a + k) # (map (\<lambda>k. Suc (length a + k)) ks
          @ rev (filter (qualifies a) [0..<length a]))"
      unfolding split rev_map Cons by simp
    have "(case candidate_end ?t (Suc (length a + k)) of
             None \<Rightarrow> None | Some e \<Rightarrow> extract_at ?t e) =
          (case candidate_end rest k of None \<Rightarrow> None | Some e \<Rightarrow> extract_at rest e)"
      by (cases "candidate_end rest k") (simp_all add: candidate_end_right extract_at_right)
    then show ?thesis
      unfolding classify_last_occurrence_alt hd using ne Cons by simp
  qed
qed

lemma source_token_classified:
  assumes src: "is_source_token r"
    and plain: "\<And>c. c \<in> set r \<Longrightarrow> \<not> is_space_or_quote c"
    and len: "length r < 1000"
  shows "filter (qualifies r) [0..<length r] \<noteq> [] \<and>
         classify_last_occurrence r (length r) = Some (strip_dotdot r)"
proof -
  from src have sl: "CHR ''/'' \<in> set r"
    and ex: "\<exists>ext \<in> set source_suffixes. suffix ext r"
    by (auto simp: is_source_token_def source_suffixes_def)
  from ex obtain ext pre where ext: "ext \<in> set source_suffixes" and r: "r = pre @ ext"
    unfolding suffix_def by blast
  define i0 where "i0 = length pre"
  define e where "e = length r - 1"
  have rne: "r \<noteq> []" using sl by auto
  have i0: "i0 < length r" using r source_suffixes_nonempty [OF ext] by (simp add: i0_def)
  have ce: "candidate_end r i0 = Some e"
    unfolding r i0_def e_def by (rule candidate_end_at_suffix [OF ext])
  have no_q: "\<And>k. k < length r \<Longrightarrow> \<not> is_space_or_quote (r ! k)"
    using plain by simp
  have no_s: "\<And>k. k < length r \<Longrightarrow> \<not> is_space (r ! k)"
    using no_q is_space_imp by blast
  have b1: "backtrack is_space r i0 = 0"
    by (rule backtrack_zero) (use no_s i0 in auto)
  have b2: "backtrack is_space_or_quote r e = 0"
    by (rule backtrack_zero) (use no_q rne in \<open>auto simp: e_def\<close>)
  have whole: "substr r 0 e = r" unfolding e_def by (rule substr_whole [OF rne])
  have q0: "qualifies r i0" using ce b1 whole sl by (simp add: qualifies_def has_slash_def)
  have later: "\<And>j. i0 < j \<Longrightarrow> \<not> qualifies r j"
    using candidate_end_inside_suffix [OF ext, of pre] by (simp add: qualifies_def r i0_def)
  have "[0..<length r] = [0..<i0] @ [i0..<length r]"
    using i0 by (metis upt_add_eq_append le0 le_add_diff_inverse less_imp_le_nat)
  moreover have "[i0..<length r] = i0 # [Suc i0..<length r]"
    using i0 by (simp add: upt_conv_Cons)
  ultimately have "[0..<length r] = [0..<i0] @ i0 # [Suc i0..<length r]" by simp
  moreover have "filter (qualifies r) [Suc i0..<length r] = []"
    using later by (auto simp: filter_empty_conv)
  ultimately have rv: "rev (filter (qualifies r) [0..<length r]) =
      i0 # rev (filter (qualifies r) [0..<i0])"
    using q0 by simp
  then have "filter (qualifies r) [0..<length r] \<noteq> []" by auto
  moreover have "classify_last_occurrence r (length r) = Some (strip_dotdot r)"
    using rv ce b2 whole len rne by (simp add: classify_last_occurrence_def e_def)
  ultimately show ?thesis by simp
qed

lemma not_occurs:
  assumes "\<not> occurs lit w" and "lit \<noteq> []"
  shows "\<not> strncmp_eq w i lit"
proof (cases "i < length w")
  case True
  with assms(1) show ?thesis by (auto simp: occurs_def list_ex_iff)
next
  case False
  then have "drop i w = []" by simp
  then show ?thesis using assms(2) by (auto simp: strncmp_eq_def)
qed

lemma plain_nonsource_none:
  assumes pl: "plain_argument w" and ns: "\<not> is_source_token w"
  shows "filter (qualifies w) [0..<length w] = []"
proof (rule ccontr)
  assume "filter (qualifies w) [0..<length w] \<noteq> []"
  then obtain i where q: "qualifies w i" by (auto simp: filter_empty_conv)
  have sl: "CHR ''/'' \<in> set w" using q by (rule qualifies_slash)
  from pl ns sl have no: "\<not> occurs ''.cpp'' w" "\<not> occurs ''.cc'' w"
    and chars: "\<And>c. c \<in> set w \<Longrightarrow> \<not> is_space_or_quote c"
    by (auto simp: plain_argument_def)
  have n1: "\<not> strncmp_eq w i ''.cpp''" by (rule not_occurs [OF no(1)]) simp
  have n2: "\<not> strncmp_eq w i ''.cc''" by (rule not_occurs [OF no(2)]) simp
  from q obtain e where "candidate_end w i = Some e"
    by (auto simp: qualifies_def split: option.splits)
  then have c: "strncmp_eq w i ''.c''"
    and nx: "length w \<le> i + 2 \<or> w ! (i + 2) = CHR '' ''"
    using n1 n2 by (auto simp: candidate_end_def split: if_splits)
  have bound: "i + 2 \<le> length w" using strncmp_eq_bound [OF _ c] by simp
  have "length w \<le> i + 2"
  proof (rule ccontr)
    assume "\<not> length w \<le> i + 2"
    then have "i + 2 < length w" by simp
    then have "w ! (i + 2) \<in> set w" by simp
    moreover from nx \<open>\<not> length w \<le> i + 2\<close> have "w ! (i + 2) = CHR '' ''" by simp
    ultimately show False using chars by (auto simp: is_space_or_quote_def)
  qed
  with bound have "length w = i + 2" by simp
  then have "drop i w = ''.c''" using c by (simp add: strncmp_eq_def)
  then have "suffix ''.c'' w" by (metis suffix_drop)
  with sl ns show False by (simp add: is_source_token_def)
qed

lemma plain_word_classified:
  assumes pl: "plain_argument w"
  shows "(filter (qualifies w) [0..<length w] = [] \<longleftrightarrow> \<not> is_source_token w) \<and>
         classify_last_occurrence w (length w) =
           (if is_source_token w then Some (strip_dotdot w) else None)"
proof (cases "is_source_token w")
  case True
  have chars: "\<And>c. c \<in> set w \<Longrightarrow> \<not> is_space_or_quote c" and len: "length w < 1000"
    using pl by (auto simp: plain_argument_def)
  from source_token_classified [OF True chars len] True show ?thesis by simp
next
  case False
  from plain_nonsource_none [OF pl False] False show ?thesis
    by (simp add: classify_last_occurrence_def)
qed

lemma plain_no_space: "plain_argument w \<Longrightarrow> CHR '' '' \<notin> set w"
  by (auto simp: plain_argument_def is_space_or_quote_def)

lemma plain_arguments_classified:
  assumes "\<And>w. w \<in> set argv \<Longrightarrow> plain_argument w"
  shows "(filter (qualifies (argv_join argv)) [0..<length (argv_join argv)] = [] \<longleftrightarrow>
            filter is_source_token argv = []) \<and>
         classify_last_occurrence (argv_join argv) (length (argv_join argv)) =
           last_source_argument argv"
  using assms
proof (induction argv rule: argv_join.induct)
  case 1
  show ?case by (simp add: classify_last_occurrence_def last_source_argument_def)
next
  case (2 a)
  then have "plain_argument a" by simp
  from plain_word_classified [OF this] show ?case by (simp add: last_source_argument_def)
next
  case (3 a b bs)
  have pa: "plain_argument a" using 3(2) by simp
  have ih: "(filter (qualifies (argv_join (b # bs))) [0..<length (argv_join (b # bs))] = [] \<longleftrightarrow>
            filter is_source_token (b # bs) = []) \<and>
         classify_last_occurrence (argv_join (b # bs)) (length (argv_join (b # bs))) =
           last_source_argument (b # bs)"
    by (rule 3(1)) (use 3(2) in auto)
  let ?rest = "argv_join (b # bs)"
  have j: "argv_join (a # b # bs) = a @ CHR '' '' # ?rest" by simp
  have l: "length (a @ CHR '' '' # ?rest) = Suc (length a + length ?rest)" by simp
  have e1: "filter (qualifies (a @ CHR '' '' # ?rest)) [0..<length (a @ CHR '' '' # ?rest)] = [] \<longleftrightarrow>
      filter (qualifies a) [0..<length a] = [] \<and>
      filter (qualifies ?rest) [0..<length ?rest] = []"
    unfolding l qualifying_split by simp
  note wa = plain_word_classified [OF pa]
  have last: "last_source_argument (a # b # bs) =
      (if filter is_source_token (b # bs) = []
       then (if is_source_token a then Some (strip_dotdot a) else None)
       else last_source_argument (b # bs))"
    by (cases "rev (filter is_source_token (b # bs))")
       (auto simp: last_source_argument_def)
  show ?case
    unfolding j classify_cons e1 using wa ih last by auto
qed

section \<open>Classifier: what is returned\<close>

text \<open>
  C5, as amended. The classifier works on occurrences, not on whole tokens. A position
  qualifies when \<open>.cpp\<close> or \<open>.cc\<close> starts there (anywhere inside a token), or
  \<open>.c\<close> followed by a space or the end of the text, and the text from the preceding
  space to the end of that extension contains a slash. The answer is taken from the last
  qualifying position: the text from the nearest preceding space or double quote up to the
  end of the extension, with leading \<open>../\<close> segments stripped, provided it is shorter
  than 1000 characters; and none when no position qualifies. Argument vectors are joined
  by spaces (none when empty or 4096 bytes or more); a command-line buffer has its NULs
  turned into spaces. For a vector of plain arguments this is the last argument that ends
  in one of the suffixes and contains a slash, with its leading \<open>../\<close> segments
  stripped, and none when no argument is such.
\<close>

theorem classify_last_qualifying_occurrence:
  "extract_filename_common t n = classify_last_occurrence t n \<and>
   extract_filename_from_argv argv =
     (if argv = [] \<or> 4096 \<le> sum_list (map (\<lambda>a. length a + 1) argv) then None
      else classify_last_occurrence (argv_join argv) (length (argv_join argv))) \<and>
   extract_filename_from_cmdline (Some bytes) =
     (if bytes = [] then None
      else classify_last_occurrence (map nul_to_space (butlast (take 4095 bytes)))
             (length (take 4095 bytes))) \<and>
   (args \<noteq> [] \<and> sum_list (map (\<lambda>a. length a + 1) args) < 4096 \<and>
    (\<forall>w \<in> set args. plain_argument w) \<longrightarrow>
      extract_filename_from_argv args = last_source_argument args)"
proof (intro conjI impI)
  show "extract_filename_common t n = classify_last_occurrence t n"
    by (rule extract_filename_common_occ)
  show "extract_filename_from_argv argv =
     (if argv = [] \<or> 4096 \<le> sum_list (map (\<lambda>a. length a + 1) argv) then None
      else classify_last_occurrence (argv_join argv) (length (argv_join argv)))"
    by (simp add: extract_filename_common_occ extract_filename_from_argv_def Let_def)
  show "extract_filename_from_cmdline (Some bytes) =
     (if bytes = [] then None
      else classify_last_occurrence (map nul_to_space (butlast (take 4095 bytes)))
             (length (take 4095 bytes)))"
    by (simp add: extract_filename_common_occ extract_filename_from_cmdline_def Let_def)
next
  assume a: "args \<noteq> [] \<and> sum_list (map (\<lambda>a. length a + 1) args) < 4096 \<and>
    (\<forall>w \<in> set args. plain_argument w)"
  then have "classify_last_occurrence (argv_join args) (length (argv_join args)) =
      last_source_argument args"
    using plain_arguments_classified [of args] by blast
  then show "extract_filename_from_argv args = last_source_argument args"
    using a by (simp add: extract_filename_from_argv_def extract_filename_common_occ Let_def)
qed

theorem classify_last_qualifying_occurrence_witness:
  "[''g++'', ''-c'', ''../../src/a.cpp'', ''-Iinc/x'', ''-o'', ''obj/a.o''] \<noteq> [] \<and>
   sum_list (map (\<lambda>a. length a + 1)
     [''g++'', ''-c'', ''../../src/a.cpp'', ''-Iinc/x'', ''-o'', ''obj/a.o'']) < 4096 \<and>
   plain_argument ''g++'' \<and> plain_argument ''-c'' \<and> plain_argument ''../../src/a.cpp'' \<and>
   plain_argument ''-Iinc/x'' \<and> plain_argument ''-o'' \<and> plain_argument ''obj/a.o'' \<and>
   last_source_argument [''g++'', ''-c'', ''../../src/a.cpp'', ''-Iinc/x'', ''-o'', ''obj/a.o'']
     = Some ''src/a.cpp'' \<and>
   extract_filename_from_argv
     [''g++'', ''-c'', ''../../src/a.cpp'', ''-Iinc/x'', ''-o'', ''obj/a.o'']
     = Some ''src/a.cpp''"
proof -
  let ?argv = "[''g++'', ''-c'', ''../../src/a.cpp'', ''-Iinc/x'', ''-o'', ''obj/a.o'']"
  have a: "?argv \<noteq> []" by simp
  have b: "sum_list (map (\<lambda>a. length a + 1) ?argv) < 4096" by simp
  have p: "plain_argument ''g++''" "plain_argument ''-c''"
    "plain_argument ''../../src/a.cpp''" "plain_argument ''-Iinc/x''"
    "plain_argument ''-o''" "plain_argument ''obj/a.o''" by code_simp+
  then have c: "\<forall>w \<in> set ?argv. plain_argument w" by simp
  have d: "last_source_argument ?argv = Some ''src/a.cpp''" by code_simp
  have "extract_filename_from_argv ?argv = last_source_argument ?argv"
    using classify_last_qualifying_occurrence [of "[]" 0 "[]" "[]" ?argv] a b c by blast
  with a b p d show ?thesis by simp
qed

text \<open>
  C5, as stated, fails: no argument of \<open>g++ -o obj/main.cpp.o main.cpp\<close> both ends in
  a recognised suffix and contains a slash, so the token reading gives none, yet the
  classifier answers \<open>obj/main.cpp\<close>, the head of the object-file argument (which is
  not a plain argument).
\<close>

theorem classify_token_counterexample:
  "extract_filename_from_argv [''g++'', ''-o'', ''obj/main.cpp.o'', ''main.cpp'']
     = Some ''obj/main.cpp'' \<and>
   classify_by_tokens (argv_join [''g++'', ''-o'', ''obj/main.cpp.o'', ''main.cpp'']) = None"
  by code_simp

section \<open>Descendant walker: current RSS never drops\<close>

lemma keeps_refl: "keeps b m m"
  by (simp add: keeps_def)

lemma keeps_trans: "keeps b m1 m2 \<Longrightarrow> keeps b m2 m3 \<Longrightarrow> keeps b m1 m3"
  unfolding keeps_def by (metis (no_types, lifting) order_trans)

lemma keeps_count: "keeps b m m' \<Longrightarrow> unat (compile_count m) \<le> unat (compile_count m')"
  by (simp add: keeps_def)

lemma unat_succ_small:
  "unat (c :: uint) < MAX_TRACKED_DESCENDANTS \<Longrightarrow> unat (c + 1) = unat c + 1"
proof -
  assume "unat c < MAX_TRACKED_DESCENDANTS"
  then have "unat c + unat (1 :: uint) < 2 ^ LENGTH(32)"
    by (simp add: MAX_TRACKED_DESCENDANTS_def)
  then have "unat (c + 1) = unat c + unat (1 :: uint)" by (simp only: unat_add_lem [THEN iffD1])
  then show ?thesis by simp
qed

lemma new_descendant_entry_keeps:
  assumes r: "new_descendant_entry now os p rss_kb cmd ws = Inr (res, ws')"
    and small: "unat (compile_count (monitoring (mon ws))) < MAX_TRACKED_DESCENDANTS"
    and b: "b \<le> unat (compile_count (monitoring (mon ws)))"
  shows "keeps b (monitoring (mon ws)) (monitoring (mon ws')) \<and>
         (\<exists>pidx. res = Some (Some (unat (compile_count (monitoring (mon ws)))), pidx, True))"
proof -
  let ?m = "monitoring (mon ws)"
  let ?idx = "unat (compile_count ?m)"
  from r obtain pst peak pidx g where
    len: "?idx < length (descendants ?m)"
    and res: "res = Some (Some ?idx, pidx, True)"
    and ws': "ws' = ws\<lparr>mon := (mon ws)\<lparr>monitoring :=
          ?m\<lparr>descendants := (descendants ?m)[?idx := (descendants ?m ! ?idx)
                 \<lparr>dpid := p, current_mb := rss_kb div 1024, old_peak_mb := peak,
                  profile_idx := pidx\<rparr>],
             compile_count := compile_count ?m + 1\<rparr>,
          profiles := pst, shm := g\<rparr>\<rparr>"
    unfolding new_descendant_entry_def Let_def
    by (auto split: sum.splits prod.splits if_splits)
  have "keeps b ?m (monitoring (mon ws'))"
    unfolding keeps_def ws' using b unat_succ_small [OF small] by simp
  with res show ?thesis by blast
qed


lemma visit_pre_keeps:
  assumes r: "visit_pre now os parent_pid p rss_kb cmd ws = Inr (res, ws')"
    and b: "b \<le> unat (compile_count (monitoring (mon ws)))"
  shows "keeps b (monitoring (mon ws)) (monitoring (mon ws')) \<and>
         (\<forall>didx pidx. res = Some (didx, pidx, True) \<longrightarrow>
            didx = Some (unat (compile_count (monitoring (mon ws)))))"
proof -
  let ?m = "monitoring (mon ws)"
  from r obtain didx pidx fpp where
    lk: "lookup_descendant (descendants ?m) (unat (compile_count ?m)) parent_pid p 0
           (None, - 1, parent_idx ws) = Inr (didx, pidx, fpp)"
    unfolding visit_pre_def Let_def by (auto split: sum.splits)
  define ws2 where "ws2 =
    (if didx = None \<and> parent_idx ws \<noteq> fpp
     then ws\<lparr>total_rss_kb := total_rss_kb ws + rss_kb, parent_idx := fpp\<rparr>
     else ws\<lparr>total_rss_kb := total_rss_kb ws + rss_kb\<rparr>)"
  have m2: "monitoring (mon ws2) = ?m" by (simp add: ws2_def)
  have body: "visit_pre now os parent_pid p rss_kb cmd ws =
    (if didx = None \<and> sint (parent_idx ws2) < 0 then
       (if MAX_TRACKED_DESCENDANTS \<le> unat (compile_count ?m) then Inr (None, ws2)
        else new_descendant_entry now os p rss_kb cmd ws2)
     else Inr (Some (didx, pidx, False), ws2))"
    unfolding visit_pre_def Let_def lk ws2_def by simp
  show ?thesis
  proof (cases "didx = None \<and> sint (parent_idx ws2) < 0 \<and>
                \<not> MAX_TRACKED_DESCENDANTS \<le> unat (compile_count ?m)")
    case True
    then have e: "new_descendant_entry now os p rss_kb cmd ws2 = Inr (res, ws')"
      using r body by simp
    have small: "unat (compile_count (monitoring (mon ws2))) < MAX_TRACKED_DESCENDANTS"
      using True m2 by simp
    have b2: "b \<le> unat (compile_count (monitoring (mon ws2)))" using b m2 by simp
    from new_descendant_entry_keeps [OF e small b2] show ?thesis using m2 by auto
  next
    case False
    then have "ws' = ws2" "\<forall>didx pidx. res \<noteq> Some (didx, pidx, True)"
      using r body by (auto split: if_splits)
    then show ?thesis using m2 by (simp add: keeps_refl)
  qed
qed

lemma visit_post_untracked:
  "visit_post below now rss_kb (None, pidx, nd) ws callee =
     Inr (ws\<lparr>total_rss_kb := total_rss_kb ws + total_rss_kb callee,
              total_jobs := total_jobs ws + total_jobs callee,
              total_unused_peaks_mb :=
                total_unused_peaks_mb callee +
                  (if current_mb (below (mon callee)) < old_peak_mb (below (mon callee))
                   then old_peak_mb (below (mon callee)) - current_mb (below (mon callee))
                   else 0),
              mon := mon callee\<rparr>)"
  by (simp add: visit_post_def Let_def)

lemma visit_post_keeps:
  assumes r: "visit_post below now rss_kb (didx, pidx, nd) ws callee = Inr ws''"
    and new: "nd \<longrightarrow> (\<exists>di. didx = Some di \<and> b \<le> di)"
  shows "keeps b (monitoring (mon callee)) (monitoring (mon ws''))"
proof (cases didx)
  case None
  with r have "mon ws'' = mon callee" by (auto simp: visit_post_untracked)
  then show ?thesis by (simp add: keeps_refl)
next
  case (Some di)
  let ?m = "monitoring (mon callee)"
  let ?ds = "descendants ?m"
  note di = Some
  from r di have len: "di < length ?ds"
    unfolding visit_post_def Let_def by (auto split: option.splits if_splits)
  let ?e = "?ds ! di"
  let ?new = "(rss_kb + total_rss_kb callee) div 1024"
  consider (same) "monitoring (mon ws'') = ?m"
    | (upd) e' where "monitoring (mon ws'') = ?m\<lparr>descendants := ?ds[di := e']\<rparr>"
        and "dpid e' = dpid ?e" and "current_mb e' = ?new"
        and "current_mb ?e < ?new \<or> nd"
    using r di len unfolding visit_post_def Let_def
    by (auto split: if_splits sum.splits)
  then show ?thesis
  proof cases
    case same
    then show ?thesis by (simp add: keeps_refl)
  next
    case (upd e')
    have "dpid ((?ds[di := e']) ! i) = dpid (?ds ! i) \<and>
          current_mb (?ds ! i) \<le> current_mb ((?ds[di := e']) ! i)" if i: "i < b" for i
    proof (cases "i = di")
      case True
      with i new di have "\<not> nd" by auto
      with upd(4) have "current_mb ?e < ?new" by simp
      then show ?thesis using True len upd(2,3) by simp
    next
      case False
      then show ?thesis by simp
    qed
    then show ?thesis unfolding keeps_def upd(1) by simp
  qed
qed

lemma callee_state_mon: "mon (callee_state pidx ws) = mon ws"
  by (simp add: callee_state_def)

lemma walk_keeps:
  "(walk_children below now os parent_pid cs ws = Inr wsr \<longrightarrow>
      (\<forall>b \<le> unat (compile_count (monitoring (mon ws))).
          keeps b (monitoring (mon ws)) (monitoring (mon wsr))))"
  "(visit below now os parent_pid c ws = Inr wsr \<longrightarrow>
      (\<forall>b \<le> unat (compile_count (monitoring (mon ws))).
          keeps b (monitoring (mon ws)) (monitoring (mon wsr))))"
proof (induction below now os parent_pid cs ws and below now os parent_pid c ws
    arbitrary: wsr and wsr rule: walk_children_visit.induct)
  case (1 below now os parent_pid ws)
  show ?case by (simp add: keeps_refl)
next
  case (2 below now os parent_pid c cs ws)
  show ?case
  proof (intro impI allI)
    fix b
    assume r: "walk_children below now os parent_pid (c # cs) ws = Inr wsr"
      and b: "b \<le> unat (compile_count (monitoring (mon ws)))"
    from r obtain ws1 where v: "visit below now os parent_pid c ws = Inr ws1"
      and w: "walk_children below now os parent_pid cs ws1 = Inr wsr"
      by (auto split: sum.splits)
    have k1: "keeps b (monitoring (mon ws)) (monitoring (mon ws1))"
      using "2.IH"(1) v b by blast
    have "b \<le> unat (compile_count (monitoring (mon ws1)))"
      using keeps_count [OF k1] b by simp
    then have "keeps b (monitoring (mon ws1)) (monitoring (mon wsr))"
      using "2.IH"(2) [OF v] w by blast
    with k1 show "keeps b (monitoring (mon ws)) (monitoring (mon wsr))" by (rule keeps_trans)
  qed
next
  case (3 below now os parent_pid p rss_kb cmd kids ws)
  show ?case
  proof (intro impI allI)
    fix b
    assume r: "visit below now os parent_pid (Proc p rss_kb cmd kids) ws = Inr wsr"
      and b: "b \<le> unat (compile_count (monitoring (mon ws)))"
    from r obtain res ws1 where pre: "visit_pre now os parent_pid p rss_kb cmd ws = Inr (res, ws1)"
      by (auto split: sum.splits)
    from visit_pre_keeps [OF pre b]
    have k1: "keeps b (monitoring (mon ws)) (monitoring (mon ws1))"
      and nd: "\<And>didx pidx. res = Some (didx, pidx, True) \<Longrightarrow>
          didx = Some (unat (compile_count (monitoring (mon ws))))"
      by blast+
    show "keeps b (monitoring (mon ws)) (monitoring (mon wsr))"
    proof (cases res)
      case None
      with r pre have "wsr = ws1" by simp
      with k1 show ?thesis by simp
    next
      case (Some loc)
      obtain didx pidx new where loc: "loc = (didx, pidx, new)" by (cases loc) auto
      from r pre Some obtain callee where
        w: "walk_children below now os p kids (callee_state (fst (snd loc)) ws1) = Inr callee"
        and post: "visit_post below now rss_kb loc ws1 callee = Inr wsr"
        by (auto split: sum.splits)
      have b1: "b \<le> unat (compile_count (monitoring (mon (callee_state (fst (snd loc)) ws1))))"
        using keeps_count [OF k1] b by (simp add: callee_state_mon)
      have k2: "keeps b (monitoring (mon ws1)) (monitoring (mon callee))"
        using "3.IH" [OF pre refl Some] w b1 by (simp add: callee_state_mon)
      have "new \<longrightarrow> (\<exists>di. didx = Some di \<and> b \<le> di)"
        using nd [of didx pidx] Some loc b by auto
      then have k3: "keeps b (monitoring (mon callee)) (monitoring (mon wsr))"
        using visit_post_keeps post loc by blast
      from k1 k2 k3 show ?thesis by (blast intro: keeps_trans)
    qed
  qed
qed

lemma walk_ready_mono: "walk_ready st os n \<Longrightarrow> n' \<le> n \<Longrightarrow> walk_ready st os n'"
  by (auto simp: walk_ready_def store_ok_def)

lemma lookup_descendant_total:
  assumes "n \<le> length ds" and "\<forall>di. fst acc = Some di \<longrightarrow> di < n"
  shows "\<exists>r. lookup_descendant ds n parent_pid p i acc = Inr r \<and>
             (\<forall>di. fst r = Some di \<longrightarrow> di < n)"
  using assms
proof (induction ds n parent_pid p i acc rule: lookup_descendant.induct)
  case (1 ds n parent_pid p i acc)
  show ?case
  proof (cases "i < n")
    case False
    then have "lookup_descendant ds n parent_pid p i acc = Inr acc"
      by (subst lookup_descendant.simps) simp
    with "1.prems" show ?thesis by simp
  next
    case True
    then have len: "\<not> length ds \<le> i" using "1.prems"(1) by simp
    let ?fpp = "if dpid (ds ! i) = parent_pid then profile_idx (ds ! i) else snd (snd acc)"
    let ?didx = "if dpid (ds ! i) = p then Some i else fst acc"
    let ?pidx = "if dpid (ds ! i) = p then profile_idx (ds ! i) else fst (snd acc)"
    have bound: "\<forall>di. fst (?didx, ?pidx, ?fpp) = Some di \<longrightarrow> di < n"
      using True "1.prems"(2) by auto
    show ?thesis
    proof (cases "?didx \<noteq> None \<and> 0 \<le> sint ?fpp")
      case brk: True
      have "lookup_descendant ds n parent_pid p i acc = Inr (?didx, ?pidx, ?fpp)"
        using brk by (subst lookup_descendant.simps) (auto simp: True len Let_def)
      with bound show ?thesis by simp
    next
      case go: False
      have "lookup_descendant ds n parent_pid p i acc =
          lookup_descendant ds n parent_pid p (Suc i) (?didx, ?pidx, ?fpp)"
        using go by (subst lookup_descendant.simps) (auto simp: True len Let_def)
      moreover have "\<exists>r. lookup_descendant ds n parent_pid p (Suc i) (?didx, ?pidx, ?fpp) = Inr r \<and>
             (\<forall>di. fst r = Some di \<longrightarrow> di < n)"
        using go by (intro "1.IH" [OF True len refl refl refl _ "1.prems"(1) bound]) simp
      ultimately show ?thesis by simp
    qed
  qed
qed

lemma find_profile_total:
  assumes "n \<le> length ps"
  shows "\<exists>r. find_profile ps n name i = Inr r \<and> (\<forall>j. r = Some j \<longrightarrow> j < n)"
  using assms
proof (induction ps n name i rule: find_profile.induct)
  case (1 ps n name i)
  show ?case
  proof (cases "i < n")
    case False
    then have "find_profile ps n name i = Inr None" by (subst find_profile.simps) simp
    then show ?thesis by simp
  next
    case True
    then have len: "\<not> length ps \<le> i" using "1.prems" by simp
    show ?thesis
    proof (cases "filename (ps ! i) = Some name")
      case f: True
      have "find_profile ps n name i = Inr (Some i)"
        using f by (subst find_profile.simps) (simp add: True len)
      with True show ?thesis by simp
    next
      case f: False
      have "find_profile ps n name i = find_profile ps n name (Suc i)"
        using f by (subst find_profile.simps) (simp add: True len)
      with "1.IH" [OF True len f "1.prems"] show ?thesis by simp
    qed
  qed
qed

lemma sint_of_nat_small:
  assumes "j < 2 ^ 31"
  shows "sint (of_nat j :: cint) = int j"
proof -
  have "j < 2 ^ LENGTH(32)" using assms by (simp add: order_less_trans [OF assms])
  then have u: "unat (of_nat j :: cint) = j" by (rule of_nat_inverse [OF refl])
  have "uint (of_nat j :: cint) = int j" unfolding uint_nat u ..
  moreover have "int j < 2 ^ 31" using assms by (metis of_nat_less_iff of_nat_numeral of_nat_power)
  moreover have "- (2 ^ 31) \<le> int j" by (metis neg_le_0_iff_le of_nat_0_le_iff order_trans zero_le_numeral zero_le_power)
  ultimately have "signed_take_bit 31 (uint (of_nat j :: cint)) = int j"
    by (simp only: signed_take_bit_int_eq_self)
  then show ?thesis using sint_uint [of "of_nat j :: cint"] by simp
qed


lemma sint_neg_of_pos:
  assumes "0 < sint (P :: 64 word)"
  shows "sint (- P) < 0"
proof -
  have up: "sint P < 2 ^ 63" using sint_lt [of P] by simp
  have "- (2 ^ 63) \<le> - sint P" using up by simp
  moreover have "- sint P < 2 ^ 63" using assms by simp
  ultimately have "signed_take_bit 63 (- sint P) = - sint P"
    by (rule signed_take_bit_int_eq_self)
  then have "sint (- P) = - sint P" using sint_word_minus [of P] by simp
  with assms show ?thesis by simp
qed


lemma word_pos_of_sint_pos: "0 < sint (P :: 64 word) \<Longrightarrow> 0 < P"
  by (metis less_irrefl sint_0 word_gt_0)


lemma store_ok_length:
  assumes "store_ok st n"
  shows "length (case memory_profiles st of None \<Rightarrow> [] | Some ps \<Rightarrow> ps)
           = unat (memory_profiles_capacity st)"
  using assms by (auto simp: store_ok_def split: option.splits)

lemma store_ok_mono: "store_ok st n \<Longrightarrow> n' \<le> n \<Longrightarrow> store_ok st n'"
  by (auto simp: store_ok_def)

lemma grow_memory_profiles_ok:
  assumes ok: "store_ok st n"
    and full: "memory_profiles_capacity st \<le> memory_profile_count st"
  shows "\<exists>st1. grow_memory_profiles st = Inr st1 \<and> store_ok st1 n \<and>
           memory_profile_count st1 = memory_profile_count st \<and>
           memory_profile_count st1 < memory_profiles_capacity st1"
proof -
  let ?cap = "memory_profiles_capacity st"
  let ?old = "case memory_profiles st of None \<Rightarrow> [] | Some ps \<Rightarrow> ps"
  define new where "new = (if ?cap = 0 then 1000 else ?cap * 2)"
  from ok have le: "memory_profile_count st \<le> ?cap"
    and b: "unat (memory_profile_count st) + n < 2 ^ 30"
    by (auto simp: store_ok_def)
  from le full have eq: "memory_profile_count st = ?cap" by simp
  have small: "unat ?cap < 2 ^ 30" using b eq by simp
  have un: "unat new = (if ?cap = 0 then 1000 else 2 * unat ?cap)"
  proof (cases "?cap = 0")
    case True
    then show ?thesis by (simp add: new_def)
  next
    case False
    have "unat ?cap * unat (2 :: uint) < 2 ^ LENGTH(32)" using small by simp
    then have "unat (?cap * 2) = unat ?cap * unat (2 :: uint)"
      by (simp only: unat_mult_lem [THEN iffD1])
    then show ?thesis using False by (simp add: new_def)
  qed
  have pos: "?cap \<noteq> 0 \<Longrightarrow> 0 < unat ?cap" by (simp add: unat_gt_0)
  have lt: "unat ?cap < unat new" using un pos by (cases "?cap = 0") auto
  have nlt: "\<not> new < ?cap" using lt by (simp add: word_less_nat_alt)
  define st1 where "st1 = st\<lparr>memory_profiles :=
        Some (take (unat ?cap) ?old @ replicate (unat new - unat ?cap) zero_profile),
      memory_profiles_capacity := new\<rparr>"
  have g: "grow_memory_profiles st = Inr st1"
    using nlt unfolding grow_memory_profiles_def Let_def st1_def new_def by simp
  have len: "length (take (unat ?cap) ?old @ replicate (unat new - unat ?cap) zero_profile)
      = unat new"
    using store_ok_length [OF ok] lt by simp
  have "store_ok st1 n"
    unfolding store_ok_def st1_def using len b eq lt by (simp add: word_le_nat_alt)
  moreover have "memory_profile_count st1 < memory_profiles_capacity st1"
    using lt eq by (simp add: st1_def word_less_nat_alt)
  ultimately show ?thesis using g by (simp add: st1_def)
qed

lemma add_profile_ok:
  assumes ok: "store_ok st (Suc n)"
  shows "\<exists>st' peak' pidx'. add_profile st name rss_kb now peak pidx = Inr (st', peak', pidx') \<and>
           store_ok st' n"
proof -
  have "\<exists>st1. (if memory_profiles_capacity st \<le> memory_profile_count st
               then grow_memory_profiles st else Inr st) = Inr st1 \<and>
          store_ok st1 (Suc n) \<and> memory_profile_count st1 < memory_profiles_capacity st1"
  proof (cases "memory_profiles_capacity st \<le> memory_profile_count st")
    case True
    with grow_memory_profiles_ok [OF ok True] show ?thesis by auto
  next
    case False
    with ok show ?thesis by auto
  qed
  then obtain st1 where g: "(if memory_profiles_capacity st \<le> memory_profile_count st
               then grow_memory_profiles st else Inr st) = Inr st1"
    and ok1: "store_ok st1 (Suc n)"
    and room: "memory_profile_count st1 < memory_profiles_capacity st1" by blast
  let ?k = "unat (memory_profile_count st1)"
  from room have kl: "?k < unat (memory_profiles_capacity st1)" by (simp add: word_less_nat_alt)
  then obtain ps where ps: "memory_profiles st1 = Some ps"
    and len: "length ps = unat (memory_profiles_capacity st1)"
    using ok1 by (cases "memory_profiles st1") (auto simp: store_ok_def)
  from ok1 have b: "?k + Suc n < 2 ^ 30" by (simp add: store_ok_def)
  have "?k + unat (1 :: uint) < 2 ^ LENGTH(32)" using b by simp
  then have "unat (memory_profile_count st1 + 1) = ?k + unat (1 :: uint)"
    by (simp only: unat_add_lem [THEN iffD1])
  then have suc: "unat (memory_profile_count st1 + 1) = Suc ?k" by simp
  define st' where "st' = st1\<lparr>memory_profiles :=
        Some (ps[?k := (ps ! ?k)\<lparr>filename := Some name, peak_memory_mb := rss_kb div 1024,
                                  last_used := now\<rparr>]),
      memory_profile_count := memory_profile_count st1 + 1\<rparr>"
  have r: "add_profile st name rss_kb now peak pidx = Inr (st', peak, memory_profile_count st1)"
    unfolding add_profile_def g st'_def using room ps len kl by (simp add: Let_def)
  have "store_ok st' n"
    unfolding store_ok_def st'_def using len suc kl b by (simp add: word_le_nat_alt)
  with r show ?thesis by blast
qed

lemma attribute_profile_ok:
  assumes ok: "store_ok st (Suc n)"
  shows "\<exists>st' peak pidx. attribute_profile st name rss_kb now = Inr (st', peak, pidx) \<and>
           store_ok st' n"
proof (cases "memory_profiles st")
  case None
  then show ?thesis using add_profile_ok [OF ok] by (simp add: attribute_profile_def)
next
  case (Some ps)
  from ok Some have len: "unat (memory_profile_count st) \<le> length ps"
    and b: "unat (memory_profile_count st) + Suc n < 2 ^ 30"
    by (auto simp: store_ok_def word_le_nat_alt)
  from find_profile_total [OF len, of name 0] obtain r where
    f: "find_profile ps (unat (memory_profile_count st)) name 0 = Inr r"
    and rb: "\<And>j. r = Some j \<Longrightarrow> j < unat (memory_profile_count st)" by blast
  show ?thesis
  proof (cases r)
    case None
    then show ?thesis using Some f add_profile_ok [OF ok] by (simp add: attribute_profile_def)
  next
    case (Some j)
    have "j < 2 ^ 30" using rb [OF Some] b by simp
    then have "j < 2 ^ 31" by simp
    then have "sint (of_nat j :: cint) = int j" by (rule sint_of_nat_small)
    then show ?thesis
      using \<open>memory_profiles st = Some ps\<close> f Some store_ok_mono [OF ok, of n]
      by (simp add: attribute_profile_def)
  qed
qed

lemma record_ok:
  assumes ok: "store_ok st n"
  shows "\<exists>st'. record_file_memory_usage_by_index st idx x f now = Inr st' \<and> store_ok st' n"
proof (cases "sint idx < 0 \<or> memory_profile_count st \<le> (ucast idx :: uint)")
  case True
  then show ?thesis using ok by (auto simp: record_file_memory_usage_by_index_def)
next
  case False
  then have nn: "0 \<le> sint idx" and lt: "(ucast idx :: uint) < memory_profile_count st"
    by auto
  show ?thesis
  proof (cases "memory_profiles st")
    case None
    then show ?thesis using ok False by (simp add: record_file_memory_usage_by_index_def)
  next
    case (Some ps)
    with ok have le: "unat (memory_profile_count st) \<le> length ps"
      by (auto simp: store_ok_def word_le_nat_alt)
    have "nat (sint idx) < length ps" using nn lt le
      by (simp add: nat_sint_nonneg word_less_nat_alt)
    then show ?thesis using False Some ok
      by (auto simp: record_file_memory_usage_by_index_def Let_def store_ok_def)
  qed
qed

lemma reserve_memory_mb_ok:
  assumes ok: "shm_ok g os"
  shows "\<exists>g' rc. reserve_memory_mb g os p mb = Inr (g', rc) \<and> shm_ok g' os"
proof (cases "shared_data g")
  case Null
  show ?thesis
  proof (cases "memory_aware_flag g = 0")
    case True
    then show ?thesis using Null ok
      by (simp add: reserve_memory_mb_def ensure_shared_memory_def)
  next
    case False
    show ?thesis
    proof (cases os)
      case Open_failed
      then show ?thesis using Null False ok
        by (simp add: reserve_memory_mb_def ensure_shared_memory_def init_shared_memory_def)
    next
      case Mmap_failed
      then show ?thesis using Null False ok by (simp add: shm_ok_def)
    next
      case (Map_ok d)
      let ?d0 = "if makelevel g = 0 then zeroed_region else d"
      have inv: "table_inv ?d0" using ok Null False Map_ok zeroed_region_inv
        by (auto simp: shm_ok_def)
      have "reserve_memory_mb g os p mb =
          Inr (g\<lparr>shared_data := Mapped (fst (reserve_in_region ?d0 p mb))\<rparr>,
               snd (reserve_in_region ?d0 p mb))"
        using Null False Map_ok
        by (simp add: reserve_memory_mb_def ensure_shared_memory_def init_shared_memory_def
              split: prod.splits)
      moreover have "shm_ok (g\<lparr>shared_data := Mapped (fst (reserve_in_region ?d0 p mb))\<rparr>) os"
        using reserve_in_region_inv [OF inv] by (simp add: shm_ok_def)
      ultimately show ?thesis by blast
    qed
  qed
next
  case Map_failed
  then show ?thesis using ok by (simp add: shm_ok_def)
next
  case (Mapped d)
  then have inv: "table_inv d" using ok by (simp add: shm_ok_def)
  show ?thesis
    using reserve_memory_mb_mapped [OF Mapped, of os p mb] reserve_in_region_inv [OF inv, of p mb]
    by (simp add: shm_ok_def)
qed

lemma new_descendant_entry_ok:
  assumes ok: "walk_ready (mon ws) os (Suc n)"
    and room: "unat (compile_count (monitoring (mon ws))) < MAX_TRACKED_DESCENDANTS"
  shows "\<exists>pidx ws'. new_descendant_entry now os p rss_kb cmd ws =
             Inr (Some (Some (unat (compile_count (monitoring (mon ws)))), pidx, True), ws') \<and>
           walk_ready (mon ws') os n"
proof -
  let ?m = "monitoring (mon ws)"
  let ?idx = "unat (compile_count ?m)"
  from ok have len: "length (descendants ?m) = MAX_TRACKED_DESCENDANTS"
    and st: "store_ok (profiles (mon ws)) (Suc n)" and sh: "shm_ok (shm (mon ws)) os"
    by (auto simp: walk_ready_def)
  have "\<exists>pst peak pidx.
      (case extract_filename_from_cmdline cmd of
         None \<Rightarrow> Inr (profiles (mon ws), 0, - 1)
       | Some strip_ptr \<Rightarrow> attribute_profile (profiles (mon ws)) strip_ptr rss_kb now)
        = Inr (pst, peak, pidx) \<and> store_ok pst n"
  proof (cases "extract_filename_from_cmdline cmd")
    case None
    then show ?thesis using store_ok_mono [OF st, of n] by simp
  next
    case (Some name)
    then show ?thesis using attribute_profile_ok [OF st, of name rss_kb now] by simp
  qed
  then obtain pst peak pidx where
    a: "(case extract_filename_from_cmdline cmd of
         None \<Rightarrow> Inr (profiles (mon ws), 0, - 1)
       | Some strip_ptr \<Rightarrow> attribute_profile (profiles (mon ws)) strip_ptr rss_kb now)
        = Inr (pst, peak, pidx)" and pst: "store_ok pst n" by blast
  have "\<exists>g rc. (if 0 < peak then reserve_memory_mb (shm (mon ws)) os p (- peak)
                 else Inr (shm (mon ws), 0)) = Inr (g, rc) \<and> shm_ok g os"
    using reserve_memory_mb_ok [OF sh, of p "- peak"] sh by auto
  then obtain g rc where
    r: "(if 0 < peak then reserve_memory_mb (shm (mon ws)) os p (- peak)
         else Inr (shm (mon ws), 0)) = Inr (g, rc)" and g: "shm_ok g os" by blast
  have il: "\<not> length (descendants ?m) \<le> ?idx" using len room by simp
  define ws' where "ws' = ws\<lparr>mon := (mon ws)\<lparr>monitoring :=
          ?m\<lparr>descendants := (descendants ?m)[?idx := (descendants ?m ! ?idx)
                 \<lparr>dpid := p, current_mb := rss_kb div 1024, old_peak_mb := peak,
                  profile_idx := pidx\<rparr>],
             compile_count := compile_count ?m + 1\<rparr>,
          profiles := pst, shm := g\<rparr>\<rparr>"
  have e: "new_descendant_entry now os p rss_kb cmd ws = Inr (Some (Some ?idx, pidx, True), ws')"
    unfolding new_descendant_entry_def a Let_def ws'_def using il r by simp
  have "walk_ready (mon ws') os n"
    unfolding walk_ready_def ws'_def using len pst g unat_succ_small [OF room] room by simp
  with e show ?thesis by blast
qed

lemma visit_pre_ok:
  assumes ok: "walk_ready (mon ws) os (Suc n)"
  shows "\<exists>res ws'. visit_pre now os parent_pid p rss_kb cmd ws = Inr (res, ws') \<and>
           walk_ready (mon ws') os n \<and>
           (\<forall>di pidx nd. res = Some (Some di, pidx, nd) \<longrightarrow> di < MAX_TRACKED_DESCENDANTS)"
proof -
  let ?m = "monitoring (mon ws)"
  from ok have len: "length (descendants ?m) = MAX_TRACKED_DESCENDANTS"
    and cnt: "unat (compile_count ?m) \<le> MAX_TRACKED_DESCENDANTS"
    by (auto simp: walk_ready_def)
  have nl: "unat (compile_count ?m) \<le> length (descendants ?m)" using len cnt by simp
  from lookup_descendant_total [OF nl, of "(None, - 1, parent_idx ws)" parent_pid p 0]
  obtain didx pidx fpp where
    lk: "lookup_descendant (descendants ?m) (unat (compile_count ?m)) parent_pid p 0
           (None, - 1, parent_idx ws) = Inr (didx, pidx, fpp)"
    and db: "\<And>di. didx = Some di \<Longrightarrow> di < unat (compile_count ?m)"
    by (metis fst_conv option.distinct(1) prod_cases3)
  define ws2 where "ws2 =
    (if didx = None \<and> parent_idx ws \<noteq> fpp
     then ws\<lparr>total_rss_kb := total_rss_kb ws + rss_kb, parent_idx := fpp\<rparr>
     else ws\<lparr>total_rss_kb := total_rss_kb ws + rss_kb\<rparr>)"
  have m2: "mon ws2 = mon ws" by (simp add: ws2_def)
  have body: "visit_pre now os parent_pid p rss_kb cmd ws =
    (if didx = None \<and> sint (parent_idx ws2) < 0 then
       (if MAX_TRACKED_DESCENDANTS \<le> unat (compile_count ?m) then Inr (None, ws2)
        else new_descendant_entry now os p rss_kb cmd ws2)
     else Inr (Some (didx, pidx, False), ws2))"
    unfolding visit_pre_def Let_def lk ws2_def by simp
  have r2: "walk_ready (mon ws2) os n" using walk_ready_mono [OF ok, of n] m2 by simp
  show ?thesis
  proof (cases "didx = None \<and> sint (parent_idx ws2) < 0")
    case False
    then have "visit_pre now os parent_pid p rss_kb cmd ws = Inr (Some (didx, pidx, False), ws2)"
      unfolding body by auto
    moreover have "\<forall>di pidx' nd. Some (didx, pidx, False) = Some (Some di, pidx', nd)
        \<longrightarrow> di < MAX_TRACKED_DESCENDANTS"
      using db cnt by auto
    ultimately show ?thesis using r2 by blast
  next
    case True
    show ?thesis
    proof (cases "MAX_TRACKED_DESCENDANTS \<le> unat (compile_count ?m)")
      case full: True
      then have "visit_pre now os parent_pid p rss_kb cmd ws = Inr (None, ws2)"
        unfolding body using True by auto
      then show ?thesis using r2 by simp
    next
      case notfull: False
      have ok2: "walk_ready (mon ws2) os (Suc n)" using ok m2 by simp
      have room: "unat (compile_count (monitoring (mon ws2))) < MAX_TRACKED_DESCENDANTS"
        using notfull m2 by simp
      from new_descendant_entry_ok [OF ok2 room, of now p rss_kb cmd]
      obtain pidx' ws' where
        e: "new_descendant_entry now os p rss_kb cmd ws2 =
             Inr (Some (Some (unat (compile_count (monitoring (mon ws2)))), pidx', True), ws')"
        and r: "walk_ready (mon ws') os n" by blast
      have "visit_pre now os parent_pid p rss_kb cmd ws =
          Inr (Some (Some (unat (compile_count (monitoring (mon ws2)))), pidx', True), ws')"
        unfolding body using True notfull e by auto
      then show ?thesis using r room by auto
    qed
  qed
qed

lemma visit_post_ok:
  assumes ok: "walk_ready (mon callee) os n"
    and di: "\<And>di. didx = Some di \<Longrightarrow> di < MAX_TRACKED_DESCENDANTS"
  shows "\<exists>ws''. visit_post below now rss_kb (didx, pidx, nd) ws callee = Inr ws'' \<and>
           walk_ready (mon ws'') os n"
proof (cases didx)
  case None
  then show ?thesis using ok by (simp add: visit_post_untracked)
next
  case (Some d)
  let ?m = "monitoring (mon callee)"
  let ?new = "(rss_kb + total_rss_kb callee) div 1024"
  from ok have len: "length (descendants ?m) = MAX_TRACKED_DESCENDANTS"
    and cnt: "unat (compile_count ?m) \<le> MAX_TRACKED_DESCENDANTS"
    and st: "store_ok (profiles (mon callee)) n" and sh: "shm_ok (shm (mon callee)) os"
    by (auto simp: walk_ready_def)
  have dl: "\<not> length (descendants ?m) \<le> d" using di [OF Some] len by simp
  from record_ok [OF st, of pidx ?new 0 now] obtain pst where
    rec: "record_file_memory_usage_by_index (profiles (mon callee)) pidx ?new 0 now = Inr pst"
    and pst: "store_ok pst n" by blast
  show ?thesis
    unfolding visit_post_def Let_def Some
    using dl rec pst len cnt st sh by (auto simp: walk_ready_def split: if_splits)
qed

lemma walk_total:
  "\<forall>n. walk_ready (mon ws) os (forest_count cs + n) \<longrightarrow>
      (\<exists>wsr. walk_children below now os parent_pid cs ws = Inr wsr \<and>
             walk_ready (mon wsr) os n)"
  "\<forall>n. walk_ready (mon ws) os (proc_count c + n) \<longrightarrow>
      (\<exists>wsr. visit below now os parent_pid c ws = Inr wsr \<and> walk_ready (mon wsr) os n)"
proof (induction below now os parent_pid cs ws and below now os parent_pid c ws
    rule: walk_children_visit.induct)
  case (1 below now os parent_pid ws)
  show ?case by (simp add: forest_count_def)
next
  case (2 below now os parent_pid c cs ws)
  show ?case
  proof (intro allI impI)
    fix n
    assume r: "walk_ready (mon ws) os (forest_count (c # cs) + n)"
    then have "walk_ready (mon ws) os (proc_count c + (forest_count cs + n))"
      by (simp add: forest_count_def add.assoc)
    with "2.IH"(1) obtain ws1 where v: "visit below now os parent_pid c ws = Inr ws1"
      and r1: "walk_ready (mon ws1) os (forest_count cs + n)" by blast
    from "2.IH"(2) [OF v] r1 obtain wsr where
      w: "walk_children below now os parent_pid cs ws1 = Inr wsr"
      and rr: "walk_ready (mon wsr) os n" by blast
    from v w rr show "\<exists>wsr. walk_children below now os parent_pid (c # cs) ws = Inr wsr \<and>
        walk_ready (mon wsr) os n" by simp
  qed
next
  case (3 below now os parent_pid p rss_kb cmd kids ws)
  show ?case
  proof (intro allI impI)
    fix n
    assume r: "walk_ready (mon ws) os (proc_count (Proc p rss_kb cmd kids) + n)"
    then have r': "walk_ready (mon ws) os (Suc (forest_count kids + n))"
      by (simp add: forest_count_def)
    from visit_pre_ok [OF r', of now parent_pid p rss_kb cmd]
    obtain res ws1 where pre: "visit_pre now os parent_pid p rss_kb cmd ws = Inr (res, ws1)"
      and r1: "walk_ready (mon ws1) os (forest_count kids + n)"
      and db: "\<And>di pidx nd. res = Some (Some di, pidx, nd) \<Longrightarrow> di < MAX_TRACKED_DESCENDANTS"
      by blast
    show "\<exists>wsr. visit below now os parent_pid (Proc p rss_kb cmd kids) ws = Inr wsr \<and>
        walk_ready (mon wsr) os n"
    proof (cases res)
      case None
      with pre have "visit below now os parent_pid (Proc p rss_kb cmd kids) ws = Inr ws1"
        by simp
      then show ?thesis using walk_ready_mono [OF r1, of n] by simp
    next
      case (Some loc)
      obtain didx pidx nd where loc: "loc = (didx, pidx, nd)" by (cases loc) auto
      have rc: "walk_ready (mon (callee_state (fst (snd loc)) ws1)) os (forest_count kids + n)"
        using r1 by (simp add: callee_state_mon)
      from "3.IH" [OF pre refl Some] rc obtain callee where
        w: "walk_children below now os p kids (callee_state (fst (snd loc)) ws1) = Inr callee"
        and r2: "walk_ready (mon callee) os n" by blast
      have "\<And>di. didx = Some di \<Longrightarrow> di < MAX_TRACKED_DESCENDANTS"
        using db Some loc by simp
      from visit_post_ok [OF r2 this, where below=below and now=now and rss_kb=rss_kb
          and pidx=pidx and nd=nd and ws=ws1]
      obtain ws'' where post: "visit_post below now rss_kb loc ws1 callee = Inr ws''"
        and r3: "walk_ready (mon ws'') os n" using loc by blast
      have "visit below now os parent_pid (Proc p rss_kb cmd kids) ws = Inr ws''"
        using pre Some w post by simp
      with r3 show ?thesis by blast
    qed
  qed
qed

lemma lookup_descendant_past:
  assumes "lookup_descendant ds n parent_pid p i acc = Inr r"
    and "\<forall>k. i \<le> k \<and> k < n \<longrightarrow> dpid (ds ! k) \<noteq> p"
  shows "fst r = fst acc \<and> fst (snd r) = fst (snd acc)"
  using assms
proof (induction ds n parent_pid p i acc rule: lookup_descendant.induct)
  case (1 ds n parent_pid p i acc)
  show ?case
  proof (cases "i < n")
    case False
    then have "lookup_descendant ds n parent_pid p i acc = Inr acc"
      by (subst lookup_descendant.simps) simp
    with "1.prems"(1) show ?thesis by simp
  next
    case True
    have len: "\<not> length ds \<le> i"
    proof
      assume "length ds \<le> i"
      then have "lookup_descendant ds n parent_pid p i acc = Inl OutOfBounds"
        using True by (subst lookup_descendant.simps) simp
      with "1.prems"(1) show False by simp
    qed
    have ne: "dpid (ds ! i) \<noteq> p" using "1.prems"(2) True by simp
    let ?fpp = "if dpid (ds ! i) = parent_pid then profile_idx (ds ! i) else snd (snd acc)"
    show ?thesis
    proof (cases "fst acc \<noteq> None \<and> 0 \<le> sint ?fpp")
      case brk: True
      have "lookup_descendant ds n parent_pid p i acc = Inr (fst acc, fst (snd acc), ?fpp)"
        using brk ne by (subst lookup_descendant.simps) (auto simp: True len Let_def)
      with "1.prems"(1) show ?thesis by auto
    next
      case go: False
      have "lookup_descendant ds n parent_pid p i acc =
          lookup_descendant ds n parent_pid p (Suc i) (fst acc, fst (snd acc), ?fpp)"
        using go ne by (subst lookup_descendant.simps) (auto simp: True len Let_def)
      with "1.prems"(1) have
        r: "lookup_descendant ds n parent_pid p (Suc i) (fst acc, fst (snd acc), ?fpp) = Inr r"
        by simp
      have "fst r = fst (fst acc, fst (snd acc), ?fpp) \<and>
            fst (snd r) = fst (snd (fst acc, fst (snd acc), ?fpp))"
        using go ne "1.prems"(2)
        by (intro "1.IH" [OF True len _ _ _ _ r]) auto
      then show ?thesis by simp
    qed
  qed
qed

lemma lookup_descendant_found:
  assumes "lookup_descendant ds n parent_pid p i acc = Inr r"
    and "i \<le> di" and "di < n" and "dpid (ds ! di) = p"
    and "\<forall>k < n. dpid (ds ! k) = p \<longrightarrow> k = di"
    and "fst acc = None"
  shows "fst r = Some di \<and> fst (snd r) = profile_idx (ds ! di)"
  using assms
proof (induction ds n parent_pid p i acc rule: lookup_descendant.induct)
  case (1 ds n parent_pid p i acc)
  have True: "i < n" using "1.prems"(2,3) by simp
  have len: "\<not> length ds \<le> i"
  proof
    assume "length ds \<le> i"
    then have "lookup_descendant ds n parent_pid p i acc = Inl OutOfBounds"
      using True by (subst lookup_descendant.simps) simp
    with "1.prems"(1) show False by simp
  qed
  let ?fpp = "if dpid (ds ! i) = parent_pid then profile_idx (ds ! i) else snd (snd acc)"
  show ?case
  proof (cases "i = di")
    case eq: True
    have p: "dpid (ds ! i) = p" using eq "1.prems"(4) by simp
    show ?thesis
    proof (cases "0 \<le> sint ?fpp")
      case brk: True
      have "lookup_descendant ds n parent_pid p i acc = Inr (Some i, profile_idx (ds ! i), ?fpp)"
        using brk p by (subst lookup_descendant.simps) (auto simp: True len Let_def)
      with "1.prems"(1) eq show ?thesis by auto
    next
      case go: False
      have "lookup_descendant ds n parent_pid p i acc =
          lookup_descendant ds n parent_pid p (Suc i) (Some i, profile_idx (ds ! i), ?fpp)"
        using go p by (subst lookup_descendant.simps) (auto simp: True len Let_def)
      with "1.prems"(1) have
        r: "lookup_descendant ds n parent_pid p (Suc i) (Some i, profile_idx (ds ! i), ?fpp) = Inr r"
        by simp
      have "\<forall>k. Suc i \<le> k \<and> k < n \<longrightarrow> dpid (ds ! k) \<noteq> p"
        using "1.prems"(5) eq by auto
      from lookup_descendant_past [OF r this] eq show ?thesis by simp
    qed
  next
    case ne: False
    then have lt: "Suc i \<le> di" using "1.prems"(2) by simp
    have np: "dpid (ds ! i) \<noteq> p" using "1.prems"(5) True ne by auto
    have "lookup_descendant ds n parent_pid p i acc =
        lookup_descendant ds n parent_pid p (Suc i) (None, fst (snd acc), ?fpp)"
      using np "1.prems"(6) by (subst lookup_descendant.simps) (auto simp: True len Let_def)
    with "1.prems"(1) have
      r: "lookup_descendant ds n parent_pid p (Suc i) (None, fst (snd acc), ?fpp) = Inr r"
      by simp
    show ?thesis
      using np "1.prems"(6)
      by (intro "1.IH" [OF True len _ _ _ _ r lt "1.prems"(3,4,5)]) auto
  qed
qed

lemma visit_tracked:
  assumes v: "visit below now os parent_pid (Proc p rss_kb cmd kids) ws = Inr ws''"
    and di: "di < unat (compile_count (monitoring (mon ws)))"
    and p: "dpid (descendants (monitoring (mon ws)) ! di) = p"
    and uniq: "\<forall>k < unat (compile_count (monitoring (mon ws))).
        dpid (descendants (monitoring (mon ws)) ! k) = p \<longrightarrow> k = di"
  shows "\<exists>ws1 callee.
      mon ws1 = mon ws \<and> total_rss_kb ws1 = 0 \<and>
      walk_children below now os p kids ws1 = Inr callee \<and>
      current_mb (descendants (monitoring (mon ws)) ! di)
        \<le> current_mb (descendants (monitoring (mon callee)) ! di) \<and>
      current_mb (descendants (monitoring (mon ws'')) ! di) =
        (if 0 \<le> sint (profile_idx (descendants (monitoring (mon ws)) ! di)) \<and>
            current_mb (descendants (monitoring (mon callee)) ! di)
              < (rss_kb + total_rss_kb callee) div 1024
         then (rss_kb + total_rss_kb callee) div 1024
         else current_mb (descendants (monitoring (mon callee)) ! di))"
proof -
  let ?m = "monitoring (mon ws)"
  let ?pidx = "profile_idx (descendants ?m ! di)"
  from v obtain res ws2 where pre: "visit_pre now os parent_pid p rss_kb cmd ws = Inr (res, ws2)"
    by (auto split: sum.splits)
  then obtain didx pidx fpp where
    lk: "lookup_descendant (descendants ?m) (unat (compile_count ?m)) parent_pid p 0
           (None, - 1, parent_idx ws) = Inr (didx, pidx, fpp)"
    unfolding visit_pre_def Let_def by (auto split: sum.splits)
  from lookup_descendant_found [OF lk _ di p uniq]
  have didx: "didx = Some di" and pidx: "pidx = ?pidx" by simp_all
  have pre': "visit_pre now os parent_pid p rss_kb cmd ws =
      Inr (Some (Some di, ?pidx, False), ws\<lparr>total_rss_kb := total_rss_kb ws + rss_kb\<rparr>)"
    unfolding visit_pre_def Let_def lk didx pidx by simp
  let ?ws2 = "ws\<lparr>total_rss_kb := total_rss_kb ws + rss_kb\<rparr>"
  let ?ws1 = "callee_state ?pidx ?ws2"
  from v pre' obtain callee where
    w: "walk_children below now os p kids ?ws1 = Inr callee"
    and post: "visit_post below now rss_kb (Some di, ?pidx, False) ?ws2 callee = Inr ws''"
    by (auto split: sum.splits)
  have m1: "mon ?ws1 = mon ws" and z: "total_rss_kb ?ws1 = 0"
    by (simp_all add: callee_state_def)
  have "keeps (unat (compile_count ?m)) ?m (monitoring (mon callee))"
    using walk_keeps(1) [of below now os p kids ?ws1 callee] w m1 by simp
  then have le: "current_mb (descendants ?m ! di)
      \<le> current_mb (descendants (monitoring (mon callee)) ! di)"
    using di by (simp add: keeps_def)
  from post have len: "di < length (descendants (monitoring (mon callee)))"
    unfolding visit_post_def Let_def by (auto split: if_splits)
  have val: "current_mb (descendants (monitoring (mon ws'')) ! di) =
        (if 0 \<le> sint ?pidx \<and>
            current_mb (descendants (monitoring (mon callee)) ! di)
              < (rss_kb + total_rss_kb callee) div 1024
         then (rss_kb + total_rss_kb callee) div 1024
         else current_mb (descendants (monitoring (mon callee)) ! di))"
    using post len unfolding visit_post_def Let_def
    by (auto split: if_splits sum.splits)
  from m1 z w le val show ?thesis by blast
qed

lemma walk_monotone:
  assumes r: "find_child_descendants below now os parent_pid procs pidx jobs unused st
      = Inr (rss, jobs', unused', st')"
    and i: "i < unat (compile_count (monitoring st))"
  shows "dpid (descendants (monitoring st') ! i) = dpid (descendants (monitoring st) ! i) \<and>
      current_mb (descendants (monitoring st) ! i)
        \<le> current_mb (descendants (monitoring st') ! i)"
proof (cases procs)
  case None
  with r show ?thesis by (simp add: find_child_descendants_def)
next
  case (Some cs)
  let ?ws = "\<lparr>parent_idx = pidx, total_rss_kb = 0, total_jobs = jobs,
                total_unused_peaks_mb = unused, mon = st\<rparr>"
  from r Some obtain wsr where w: "walk_children below now os parent_pid cs ?ws = Inr wsr"
    and st': "st' = mon wsr"
    by (auto simp: find_child_descendants_def split: sum.splits)
  have "keeps (unat (compile_count (monitoring st))) (monitoring st) (monitoring st')"
    using walk_keeps(1) [of below now os parent_pid cs ?ws wsr] w st' by simp
  with i show ?thesis by (simp add: keeps_def)
qed

lemma walk_returns:
  assumes "walk_ready st os (forest_count cs)"
  shows "\<exists>rss jobs' unused' st'.
      find_child_descendants below now os parent_pid (Some cs) pidx jobs unused st
        = Inr (rss, jobs', unused', st') \<and> walk_ready st' os 0"
proof -
  let ?ws = "\<lparr>parent_idx = pidx, total_rss_kb = 0, total_jobs = jobs,
                total_unused_peaks_mb = unused, mon = st\<rparr>"
  have "walk_ready (mon ?ws) os (forest_count cs + 0)" using assms by simp
  with walk_total(1) [of ?ws os cs below now parent_pid]
  obtain wsr where "walk_children below now os parent_pid cs ?ws = Inr wsr"
    and "walk_ready (mon wsr) os 0" by blast
  then show ?thesis by (simp add: find_child_descendants_def)
qed

lemma driver_state_parts:
  "length (descendants (monitoring driver_state)) = 100"
  "compile_count (monitoring driver_state) = 1"
  "profiles driver_state = scenario_store"
  "shm driver_state = top_level_globals\<lparr>shared_data :=
     Mapped (fst (reserve_in_region region_after_admission 5000 (- 200)))\<rparr>"
  by code_simp+

lemma scenario_store_ok: "store_ok scenario_store 2"
  by (simp add: store_ok_def scenario_store_def scenario_profiles_def)

lemma driver_state_ready: "walk_ready driver_state Open_failed 2"
  using reserve_in_region_inv [OF region_after_admission_inv, of 5000 "- 200"] scenario_store_ok
  by (simp add: walk_ready_def driver_state_parts shm_ok_def MAX_TRACKED_DESCENDANTS_def)

text \<open>
  C10. From a state in which the arrays have their sizes, a call of the walker returns,
  whatever the forest and whatever lies below the table. Over a call that returns, every
  entry that was in the table before keeps its pid and its \<open>current_mb\<close> has not gone
  down. And when the loop body meets a process that has an entry, it stores the newly
  computed RSS (its own plus what the recursive call returned for its children, in MiB)
  only when the entry has a profile and that value exceeds the \<open>current_mb\<close> the entry
  holds after the recursive call, which is at least what it held before; otherwise
  \<open>current_mb\<close> stays as the recursive call left it.
\<close>

theorem current_mb_monotone:
  "(walk_ready st os (forest_count cs) \<longrightarrow>
      (\<exists>rss jobs' unused' st'.
          find_child_descendants below now os parent_pid (Some cs) pidx jobs unused st
            = Inr (rss, jobs', unused', st') \<and> walk_ready st' os 0)) \<and>
   (find_child_descendants below now os parent_pid procs pidx jobs unused st
      = Inr (rss, jobs', unused', st') \<and>
    i < unat (compile_count (monitoring st)) \<longrightarrow>
      dpid (descendants (monitoring st') ! i) = dpid (descendants (monitoring st) ! i) \<and>
      current_mb (descendants (monitoring st) ! i)
        \<le> current_mb (descendants (monitoring st') ! i)) \<and>
   (visit below now os parent_pid (Proc p rss_kb cmd kids) ws = Inr ws'' \<and>
    di < unat (compile_count (monitoring (mon ws))) \<and>
    dpid (descendants (monitoring (mon ws)) ! di) = p \<and>
    (\<forall>k < unat (compile_count (monitoring (mon ws))).
        dpid (descendants (monitoring (mon ws)) ! k) = p \<longrightarrow> k = di) \<longrightarrow>
      (\<exists>ws1 callee.
          mon ws1 = mon ws \<and> total_rss_kb ws1 = 0 \<and>
          walk_children below now os p kids ws1 = Inr callee \<and>
          current_mb (descendants (monitoring (mon ws)) ! di)
            \<le> current_mb (descendants (monitoring (mon callee)) ! di) \<and>
          current_mb (descendants (monitoring (mon ws'')) ! di) =
            (if 0 \<le> sint (profile_idx (descendants (monitoring (mon ws)) ! di)) \<and>
                current_mb (descendants (monitoring (mon callee)) ! di)
                  < (rss_kb + total_rss_kb callee) div 1024
             then (rss_kb + total_rss_kb callee) div 1024
             else current_mb (descendants (monitoring (mon callee)) ! di))))"
proof (intro conjI impI)
  assume "walk_ready st os (forest_count cs)"
  then show "\<exists>rss jobs' unused' st'.
      find_child_descendants below now os parent_pid (Some cs) pidx jobs unused st
        = Inr (rss, jobs', unused', st') \<and> walk_ready st' os 0"
    by (rule walk_returns)
next
  assume a: "find_child_descendants below now os parent_pid procs pidx jobs unused st
      = Inr (rss, jobs', unused', st') \<and> i < unat (compile_count (monitoring st))"
  from walk_monotone [of below now os parent_pid procs pidx jobs unused st rss jobs' unused' st' i] a
  show "dpid (descendants (monitoring st') ! i) = dpid (descendants (monitoring st) ! i)"
    and "current_mb (descendants (monitoring st) ! i)
        \<le> current_mb (descendants (monitoring st') ! i)" by simp_all
next
  assume a: "visit below now os parent_pid (Proc p rss_kb cmd kids) ws = Inr ws'' \<and>
    di < unat (compile_count (monitoring (mon ws))) \<and>
    dpid (descendants (monitoring (mon ws)) ! di) = p \<and>
    (\<forall>k < unat (compile_count (monitoring (mon ws))).
        dpid (descendants (monitoring (mon ws)) ! k) = p \<longrightarrow> k = di)"
  then show "\<exists>ws1 callee.
          mon ws1 = mon ws \<and> total_rss_kb ws1 = 0 \<and>
          walk_children below now os p kids ws1 = Inr callee \<and>
          current_mb (descendants (monitoring (mon ws)) ! di)
            \<le> current_mb (descendants (monitoring (mon callee)) ! di) \<and>
          current_mb (descendants (monitoring (mon ws'')) ! di) =
            (if 0 \<le> sint (profile_idx (descendants (monitoring (mon ws)) ! di)) \<and>
                current_mb (descendants (monitoring (mon callee)) ! di)
                  < (rss_kb + total_rss_kb callee) div 1024
             then (rss_kb + total_rss_kb callee) div 1024
             else current_mb (descendants (monitoring (mon callee)) ! di))"
    using visit_tracked [of below now os parent_pid p rss_kb cmd kids ws ws'' di] by blast
qed

theorem current_mb_monotone_witness:
  "walk_ready driver_state Open_failed (forest_count (driver_with_child 20480 10240)) \<and>
   find_child_descendants seven_below 1762000001 Open_failed 4000
     (Some (driver_with_child 20480 10240)) (- 1) 0 0 driver_state
     = Inr (30720, 1, 57, driver_state) \<and>
   (\<exists>rss jobs' unused' st'.
      find_child_descendants seven_below 1762000002 Open_failed 4000
        (Some (driver_with_child 20480 10240)) (- 1) 0 0 driver_state
        = Inr (rss, jobs', unused', st') \<and> walk_ready st' Open_failed 0) \<and>
   0 < unat (compile_count (monitoring driver_state)) \<and>
   dpid (descendants (monitoring driver_state) ! 0) = 5000 \<and>
   current_mb (descendants (monitoring driver_state) ! 0) = 150 \<and>
   visit seven_below 1762000002 Open_failed 4000
     (Proc 5000 40960
        (Some (''g++'' @ [CHR 0x00] @ ''-c'' @ [CHR 0x00] @ ''src/c.cpp'' @ [CHR 0x00]))
        [Proc 5001 163840
           (Some (''cc1plus'' @ [CHR 0x00] @ ''-quiet'' @ [CHR 0x00] @ ''-o''
                  @ [CHR 0x00] @ ''/tmp/cc.s'' @ [CHR 0x00])) []])
     driver_walk = Inr driver_grown \<and>
   current_mb (descendants (monitoring (mon driver_grown)) ! 0) = 200 \<and>
   (\<exists>ws1 callee.
      mon ws1 = mon driver_walk \<and> total_rss_kb ws1 = 0 \<and>
      walk_children seven_below 1762000002 Open_failed 5000
        [Proc 5001 163840
           (Some (''cc1plus'' @ [CHR 0x00] @ ''-quiet'' @ [CHR 0x00] @ ''-o''
                  @ [CHR 0x00] @ ''/tmp/cc.s'' @ [CHR 0x00])) []] ws1 = Inr callee \<and>
      current_mb (descendants (monitoring (mon driver_grown)) ! 0) =
        (if 0 \<le> sint (profile_idx (descendants (monitoring (mon driver_walk)) ! 0)) \<and>
            current_mb (descendants (monitoring (mon callee)) ! 0)
              < (40960 + total_rss_kb callee) div 1024
         then (40960 + total_rss_kb callee) div 1024
         else current_mb (descendants (monitoring (mon callee)) ! 0)))"
proof -
  let ?kid = "Proc 5001 163840
           (Some (''cc1plus'' @ [CHR 0x00] @ ''-quiet'' @ [CHR 0x00] @ ''-o''
                  @ [CHR 0x00] @ ''/tmp/cc.s'' @ [CHR 0x00])) []"
  let ?cmd = "Some (''g++'' @ [CHR 0x00] @ ''-c'' @ [CHR 0x00] @ ''src/c.cpp'' @ [CHR 0x00])"
  have fc: "forest_count (driver_with_child 20480 10240) = 2" by code_simp
  have rdy: "walk_ready driver_state Open_failed (forest_count (driver_with_child 20480 10240))"
    unfolding fc by (rule driver_state_ready)
  have e: "find_child_descendants seven_below 1762000001 Open_failed 4000
     (Some (driver_with_child 20480 10240)) (- 1) 0 0 driver_state
     = Inr (30720, 1, 57, driver_state)" by code_simp
  have c: "(0 :: nat) < unat (compile_count (monitoring driver_state))"
    by (simp add: driver_state_parts)
  have d: "dpid (descendants (monitoring driver_state) ! 0) = 5000"
    "current_mb (descendants (monitoring driver_state) ! 0) = 150" by code_simp+
  have v: "visit seven_below 1762000002 Open_failed 4000 (Proc 5000 40960 ?cmd [?kid])
      driver_walk = Inr driver_grown" by code_simp
  have g: "current_mb (descendants (monitoring (mon driver_grown)) ! 0) = 200" by code_simp
  have mw: "mon driver_walk = driver_state" by (simp add: driver_walk_def)
  have u: "\<forall>k < unat (compile_count (monitoring (mon driver_walk))).
        dpid (descendants (monitoring (mon driver_walk)) ! k) = 5000 \<longrightarrow> k = 0"
    by (simp add: mw driver_state_parts)
  note t = current_mb_monotone [where st=driver_state and os=Open_failed
      and cs="driver_with_child 20480 10240" and below=seven_below and now=1762000002
      and parent_pid=4000 and p=5000 and rss_kb=40960 and cmd="?cmd" and kids="[?kid]"
      and ws=driver_walk and ws''=driver_grown and di=0 and pidx="- 1" and jobs=0
      and unused=0]
  from t [THEN conjunct1] rdy
  have y: "\<exists>rss jobs' unused' st'.
      find_child_descendants seven_below 1762000002 Open_failed 4000
        (Some (driver_with_child 20480 10240)) (- 1) 0 0 driver_state
        = Inr (rss, jobs', unused', st') \<and> walk_ready st' Open_failed 0"
    by simp
  from t [THEN conjunct2, THEN conjunct2] v c d(1) u mw
  have "\<exists>ws1 callee.
      mon ws1 = mon driver_walk \<and> total_rss_kb ws1 = 0 \<and>
      walk_children seven_below 1762000002 Open_failed 5000 [?kid] ws1 = Inr callee \<and>
      current_mb (descendants (monitoring (mon driver_walk)) ! 0)
        \<le> current_mb (descendants (monitoring (mon callee)) ! 0) \<and>
      current_mb (descendants (monitoring (mon driver_grown)) ! 0) =
        (if 0 \<le> sint (profile_idx (descendants (monitoring (mon driver_walk)) ! 0)) \<and>
            current_mb (descendants (monitoring (mon callee)) ! 0)
              < (40960 + total_rss_kb callee) div 1024
         then (40960 + total_rss_kb callee) div 1024
         else current_mb (descendants (monitoring (mon callee)) ! 0))"
    by simp
  then have x: "\<exists>ws1 callee.
      mon ws1 = mon driver_walk \<and> total_rss_kb ws1 = 0 \<and>
      walk_children seven_below 1762000002 Open_failed 5000 [?kid] ws1 = Inr callee \<and>
      current_mb (descendants (monitoring (mon driver_grown)) ! 0) =
        (if 0 \<le> sint (profile_idx (descendants (monitoring (mon driver_walk)) ! 0)) \<and>
            current_mb (descendants (monitoring (mon callee)) ! 0)
              < (40960 + total_rss_kb callee) div 1024
         then (40960 + total_rss_kb callee) div 1024
         else current_mb (descendants (monitoring (mon callee)) ! 0))"
    by blast
  from rdy e y c d v g x show ?thesis by blast
qed

section \<open>Descendant walker: the release at first observation\<close>

lemma reserved_for_absent:
  assumes inv: "table_inv d"
    and absent: "\<And>j. j < unat (reservation_count d) \<Longrightarrow> pid (reservations d ! j) \<noteq> p"
  shows "reserved_for d p = 0"
proof (cases "find_pid (reservations d) p 0 (unat (reservation_count d))")
  case None
  then show ?thesis by (simp add: reserved_for_def existing_limit_inv [OF inv])
next
  case (Some k)
  from find_pid_Some [OF Some] absent show ?thesis by blast
qed


lemma reserved_for_found:
  assumes inv: "table_inv d" and p: "p \<noteq> 0"
    and k: "k < unat (reservation_count d)" and pk: "pid (reservations d ! k) = p"
  shows "reserved_for d p = reserved_mb (reservations d ! k)"
proof (cases "find_pid (reservations d) p 0 (unat (reservation_count d))")
  case None
  from find_pid_None [OF None, of k] k pk show ?thesis by simp
next
  case (Some k')
  from find_pid_Some [OF Some] have k': "k' < unat (reservation_count d)"
    "pid (reservations d ! k') = p" by auto
  from inv have n: "unat (reservation_count d) \<le> MAX_RESERVATIONS"
    and dist: "\<And>i j. i < MAX_RESERVATIONS \<Longrightarrow> j < MAX_RESERVATIONS \<Longrightarrow>
        pid (reservations d ! i) = pid (reservations d ! j) \<Longrightarrow>
        pid (reservations d ! i) \<noteq> 0 \<Longrightarrow> i = j"
    unfolding table_inv_def by blast+
  have "k' = k" using dist [of k' k] k k' n pk p by simp
  then show ?thesis using Some by (simp add: reserved_for_def existing_limit_inv [OF inv])
qed


lemma release_in_region_others:
  assumes inv: "table_inv d" and p: "p \<noteq> 0" and mb: "sint mb \<le> 0"
  shows "(\<forall>i < MAX_RESERVATIONS.
            pid (reservations d ! i) \<noteq> p \<and> pid (reservations d ! i) \<noteq> 0 \<longrightarrow>
            reservations (fst (reserve_in_region d p mb)) ! i = reservations d ! i) \<and>
         total_reserved_mb (fst (reserve_in_region d p mb)) =
           total_reserved_mb d - reserved_for d p"
proof -
  from inv have len: "length (reservations d) = MAX_RESERVATIONS"
    and n: "unat (reservation_count d) \<le> MAX_RESERVATIONS"
    unfolding table_inv_def by blast+
  from inv show ?thesis
  proof (cases rule: reserve_in_region_cases [where p=p and mb=mb])
    case (found k)
    have kl: "k < length (reservations d)" using found(1) n len by simp
    note fr = apply_reservation_frame [OF kl, where p=p and mb=mb]
    have tot: "total_reserved_mb (fst (apply_reservation d k p mb)) =
        total_reserved_mb d - reserved_mb (reservations d ! k)"
      using mb by (simp add: apply_reservation_def Let_def)
    have "reservations (fst (apply_reservation d k p mb)) ! i = reservations d ! i"
      if "pid (reservations d ! i) \<noteq> p" for i
      using fr(4) [of i] that found(2) by auto
    then show ?thesis
      unfolding found(3) using tot reserved_for_found [OF inv p found(1,2)] by simp
  next
    case unchanged
    then show ?thesis using reserved_for_absent [OF inv] by simp
  next
    case (fresh e)
    let ?d1 = "d\<lparr>reservations := (reservations d)[e := \<lparr>pid = p, reserved_mb = 0\<rparr>],
             reservation_count :=
               (if sint (reservation_count d) \<le> int e then of_nat (e + 1)
                else reservation_count d)\<rparr>"
    have el: "e < length (reservations ?d1)" using fresh(3) len by simp
    note fr = apply_reservation_frame [OF el, where p=p and mb=mb]
    have tot: "total_reserved_mb (fst (apply_reservation ?d1 e p mb)) = total_reserved_mb d"
      using mb fresh(3) len by (simp add: apply_reservation_def Let_def)
    have "reservations (fst (apply_reservation ?d1 e p mb)) ! i = reservations d ! i"
      if "pid (reservations d ! i) \<noteq> 0" for i
    proof -
      have "i \<noteq> e" using that fresh(4) by auto
      then show ?thesis using fr(4) [of i] by simp
    qed
    then show ?thesis
      unfolding fresh(5) using tot reserved_for_absent [OF inv fresh(1)] by simp
  qed
qed


lemma region_child_reserved_inv: "table_inv region_child_reserved"
  unfolding region_child_reserved_def
  by (intro reserve_in_region_inv zeroed_region_inv)

text \<open>
  C3, as amended. Whenever the loop body meets a process \<open>c\<close> that is not in the table,
  under a parent that is not attributed, while the table has room, and the classifier and
  the profile store give for its command line a profile with peak \<open>P > 0\<close> (below
  \<open>2 ^ 63\<close>), it enters \<open>c\<close> in the table with \<open>old_peak_mb = P\<close> and calls
  \<open>reserve_memory_mb (c, -P)\<close>, with the child's pid: afterwards no slot is held under
  \<open>c\<close>, what was reserved under \<open>c\<close> has been taken off \<open>total_reserved_mb\<close>, and every
  slot owned by another process, the caller's included, is what it was. This holds at
  every such process of a walk, whatever the forest around it.
\<close>

theorem walker_releases_under_child_pid:
  assumes look: "lookup_descendant (descendants (monitoring (mon ws)))
        (unat (compile_count (monitoring (mon ws)))) parent_pid c 0
        (None, - 1, parent_idx ws) = Inr (None, pidx0, fpp)"
    and unattributed: "sint fpp < 0"
    and room: "unat (compile_count (monitoring (mon ws))) < MAX_TRACKED_DESCENDANTS"
    and len: "length (descendants (monitoring (mon ws))) = MAX_TRACKED_DESCENDANTS"
    and cls: "extract_filename_from_cmdline cmd = Some name"
    and attr: "attribute_profile (profiles (mon ws)) name rss_kb now = Inr (pst, P, pidx)"
    and P: "0 < sint P"
    and m: "shared_data (shm (mon ws)) = Mapped d"
    and inv: "table_inv d"
    and c: "c \<noteq> 0"
  shows "\<exists>ws' d'.
      visit_pre now os parent_pid c rss_kb cmd ws =
        Inr (Some (Some (unat (compile_count (monitoring (mon ws)))), pidx, True), ws') \<and>
      dpid (descendants (monitoring (mon ws')) ! unat (compile_count (monitoring (mon ws)))) = c \<and>
      old_peak_mb (descendants (monitoring (mon ws')) ! unat (compile_count (monitoring (mon ws))))
        = P \<and>
      shared_data (shm (mon ws')) = Mapped d' \<and>
      d' = fst (reserve_in_region d c (- P)) \<and>
      (\<forall>i < MAX_RESERVATIONS. pid (reservations d' ! i) \<noteq> c) \<and>
      (\<forall>i < MAX_RESERVATIONS.
          pid (reservations d ! i) \<noteq> c \<and> pid (reservations d ! i) \<noteq> 0 \<longrightarrow>
          reservations d' ! i = reservations d ! i) \<and>
      total_reserved_mb d' = total_reserved_mb d - reserved_for d c"
proof -
  let ?m = "monitoring (mon ws)"
  let ?idx = "unat (compile_count ?m)"
  let ?d' = "fst (reserve_in_region d c (- P))"
  define ws2 where "ws2 =
    (if parent_idx ws \<noteq> fpp
     then ws\<lparr>total_rss_kb := total_rss_kb ws + rss_kb, parent_idx := fpp\<rparr>
     else ws\<lparr>total_rss_kb := total_rss_kb ws + rss_kb\<rparr>)"
  have m2: "mon ws2 = mon ws" by (simp add: ws2_def)
  have p2: "parent_idx ws2 = fpp" by (simp add: ws2_def)
  have notfull: "\<not> MAX_TRACKED_DESCENDANTS \<le> ?idx" using room by simp
  have pre: "visit_pre now os parent_pid c rss_kb cmd ws =
      new_descendant_entry now os c rss_kb cmd ws2"
    unfolding visit_pre_def Let_def look using notfull unattributed p2
    by (auto simp: ws2_def)
  have neg: "sint (- P) \<le> 0" using sint_neg_of_pos [OF P] by simp
  have Ppos: "0 < P" by (rule word_pos_of_sint_pos [OF P])
  have res: "reserve_memory_mb (shm (mon ws)) os c (- P) =
      Inr ((shm (mon ws))\<lparr>shared_data := Mapped ?d'\<rparr>, snd (reserve_in_region d c (- P)))"
    by (rule reserve_memory_mb_mapped [OF m])
  have il: "\<not> length (descendants ?m) \<le> ?idx" using len room by simp
  define ws' where "ws' = ws2\<lparr>mon := (mon ws)\<lparr>monitoring :=
        ?m\<lparr>descendants := (descendants ?m)[?idx := (descendants ?m ! ?idx)
               \<lparr>dpid := c, current_mb := rss_kb div 1024, old_peak_mb := P,
                profile_idx := pidx\<rparr>],
           compile_count := compile_count ?m + 1\<rparr>,
        profiles := pst, shm := (shm (mon ws))\<lparr>shared_data := Mapped ?d'\<rparr>\<rparr>\<rparr>"
  have entry: "new_descendant_entry now os c rss_kb cmd ws2 =
      Inr (Some (Some ?idx, pidx, True), ws')"
    unfolding new_descendant_entry_def Let_def ws'_def m2
    using cls attr Ppos res il by simp
  have e1: "dpid (descendants (monitoring (mon ws')) ! ?idx) = c"
    and e2: "old_peak_mb (descendants (monitoring (mon ws')) ! ?idx) = P"
    and sh: "shared_data (shm (mon ws')) = Mapped ?d'"
    using il by (simp_all add: ws'_def)
  have v: "visit_pre now os parent_pid c rss_kb cmd ws =
      Inr (Some (Some ?idx, pidx, True), ws')"
    using pre entry by simp
  show ?thesis
    by (rule exI [of _ ws'], rule exI [of _ ?d'])
      (use v e1 e2 sh release_in_region [OF inv c neg]
         release_in_region_others [OF inv c neg] in simp)
qed

theorem walker_releases_under_child_pid_witness:
  "lookup_descendant (descendants (monitoring (mon child_reserved_walk)))
     (unat (compile_count (monitoring (mon child_reserved_walk)))) 4000 5000 0
     (None, - 1, parent_idx child_reserved_walk) = Inr (None, - 1, - 1) \<and>
   extract_filename_from_cmdline
     (Some (''g++'' @ [CHR 0x00] @ ''-c'' @ [CHR 0x00] @ ''src/c.cpp'' @ [CHR 0x00]))
     = Some ''src/c.cpp'' \<and>
   attribute_profile (profiles (mon child_reserved_walk)) ''src/c.cpp'' 30720 1762000000
     = Inr (scenario_store, 200, 0) \<and>
   shared_data (shm (mon child_reserved_walk)) = Mapped region_child_reserved \<and>
   table_inv region_child_reserved \<and>
   reserved_for region_child_reserved 5000 = 200 \<and>
   reserved_for region_child_reserved 4000 = 300 \<and>
   total_reserved_mb region_child_reserved = 500 \<and>
   (\<exists>ws' d'.
      visit_pre 1762000000 Open_failed 4000 5000 30720
        (Some (''g++'' @ [CHR 0x00] @ ''-c'' @ [CHR 0x00] @ ''src/c.cpp'' @ [CHR 0x00]))
        child_reserved_walk = Inr (Some (Some 0, 0, True), ws') \<and>
      shared_data (shm (mon ws')) = Mapped d' \<and>
      (\<forall>i < MAX_RESERVATIONS. pid (reservations d' ! i) \<noteq> 5000) \<and>
      (\<forall>i < MAX_RESERVATIONS.
          pid (reservations region_child_reserved ! i) \<noteq> 5000 \<and>
          pid (reservations region_child_reserved ! i) \<noteq> 0 \<longrightarrow>
          reservations d' ! i = reservations region_child_reserved ! i) \<and>
      total_reserved_mb d' = 300) \<and>
   (case find_child_descendants zeros_below 1762000000 Open_failed 4000
           (Some (driver_with_child 30720 122880)) (- 1) 0 0 child_reserved_state of
      Inl f \<Rightarrow> False
    | Inr (rss, jobs, unused, st') \<Rightarrow>
        rss = 153600 \<and> total_reserved_mb (region_of st') = 300 \<and>
        reserved_for (region_of st') 5000 = 0 \<and> reserved_for (region_of st') 4000 = 300)"
proof -
  let ?cmd = "Some (''g++'' @ [CHR 0x00] @ ''-c'' @ [CHR 0x00] @ ''src/c.cpp'' @ [CHR 0x00])"
  have look: "lookup_descendant (descendants (monitoring (mon child_reserved_walk)))
     (unat (compile_count (monitoring (mon child_reserved_walk)))) 4000 5000 0
     (None, - 1, parent_idx child_reserved_walk) = Inr (None, - 1, - 1)" by code_simp
  have un: "sint (- 1 :: cint) < 0" by simp
  have room: "unat (compile_count (monitoring (mon child_reserved_walk)))
      < MAX_TRACKED_DESCENDANTS"
    by (simp add: child_reserved_walk_def child_reserved_state_def scenario_state_def
          MAX_TRACKED_DESCENDANTS_def)
  have len: "length (descendants (monitoring (mon child_reserved_walk)))
      = MAX_TRACKED_DESCENDANTS"
    by (simp add: child_reserved_walk_def child_reserved_state_def scenario_state_def)
  have cls: "extract_filename_from_cmdline ?cmd = Some ''src/c.cpp''" by code_simp
  have attr: "attribute_profile (profiles (mon child_reserved_walk)) ''src/c.cpp'' 30720
      1762000000 = Inr (scenario_store, 200, 0)" by code_simp
  have P: "0 < sint (200 :: ulong)" by simp
  have m: "shared_data (shm (mon child_reserved_walk)) = Mapped region_child_reserved"
    by (simp add: child_reserved_walk_def child_reserved_state_def)
  have c: "(5000 :: pid_t) \<noteq> 0" by simp
  have r5: "reserved_for region_child_reserved 5000 = 200" by code_simp
  have r4: "reserved_for region_child_reserved 4000 = 300" by code_simp
  have tot: "total_reserved_mb region_child_reserved = 500" by code_simp
  have z: "unat (compile_count (monitoring (mon child_reserved_walk))) = 0"
    by (simp add: child_reserved_walk_def child_reserved_state_def scenario_state_def)
  have walk: "(case find_child_descendants zeros_below 1762000000 Open_failed 4000
           (Some (driver_with_child 30720 122880)) (- 1) 0 0 child_reserved_state of
      Inl f \<Rightarrow> False
    | Inr (rss, jobs, unused, st') \<Rightarrow>
        rss = 153600 \<and> total_reserved_mb (region_of st') = 300 \<and>
        reserved_for (region_of st') 5000 = 0 \<and> reserved_for (region_of st') 4000 = 300)"
    by code_simp
  from walker_releases_under_child_pid [OF look un room len cls attr P m
      region_child_reserved_inv c, where os=Open_failed]
  have "\<exists>ws' d'.
      visit_pre 1762000000 Open_failed 4000 5000 30720 ?cmd child_reserved_walk
        = Inr (Some (Some 0, 0, True), ws') \<and>
      shared_data (shm (mon ws')) = Mapped d' \<and>
      (\<forall>i < MAX_RESERVATIONS. pid (reservations d' ! i) \<noteq> 5000) \<and>
      (\<forall>i < MAX_RESERVATIONS.
          pid (reservations region_child_reserved ! i) \<noteq> 5000 \<and>
          pid (reservations region_child_reserved ! i) \<noteq> 0 \<longrightarrow>
          reservations d' ! i = reservations region_child_reserved ! i) \<and>
      total_reserved_mb d' = 300"
    unfolding z r5 tot by auto
  with look cls attr m region_child_reserved_inv r5 r4 tot walk show ?thesis by blast
qed

text \<open>
  C3, as stated, fails. Before admission the total is 0; the gate's reservation of 200
  under the caller 4000 makes it 200; the walker then sees the child 5000 running
  \<open>g++ -c src/c.cpp\<close>, attributes it to the profile of 200 MiB and releases under 5000,
  which holds nothing. The total is still 200 and the caller's reservation is still there.
\<close>

theorem implicit_release_counterexample:
  "find_child_descendants zeros_below 1762000000 Open_failed 4000 (Some scenario_procs) (- 1) 0 0
     scenario_state = Inr (51200, 1, 150, scenario_after_walk) \<and>
   total_reserved_mb zeroed_region = 0 \<and>
   total_reserved_mb region_after_admission = 200 \<and>
   reserved_for region_after_admission 4000 = 200 \<and>
   shared_data (shm scenario_after_walk) = Mapped (region_of scenario_after_walk) \<and>
   old_peak_mb (descendants (monitoring scenario_after_walk) ! 0) = 200 \<and>
   dpid (descendants (monitoring scenario_after_walk) ! 0) = 5000 \<and>
   total_reserved_mb (region_of scenario_after_walk) = 200 \<and>
   reserved_for (region_of scenario_after_walk) 4000 = 200"
  by code_simp

end
